theory Spec2Isabelle
  imports Complex_Main
begin

section \<open>A tandem network of servers with feedback: the notebook sim.ipynb\<close>

text \<open>
  The notebook's \<^verbatim>\<open>servers_simulation\<close> (the discrete-event engine),
  \<^verbatim>\<open>metrics_by_simulation\<close> (the reducer of one trace) and \<^verbatim>\<open>run_simulation\<close>
  (the replication loop) are embedded as HOL functions. Times are reals. The module
  \<^verbatim>\<open>random\<close> is a parameter: a \<open>random_source\<close> lists what each successive call
  returns, and the state counts the calls made so far. Python exceptions are values
  of type \<open>error\<close>. The \<^verbatim>\<open>while\<close> loop of the engine is bounded by fuel; running
  out of fuel is the value \<open>None\<close>.
\<close>

subsection \<open>Event kinds and the priority queue\<close>

datatype EventType = ASIGNED | ARRIVAL | FINISH

text \<open>\<^verbatim>\<open>auto()\<close> numbers the members 1, 2, 3 in declaration order.\<close>

fun enum_value :: "EventType \<Rightarrow> nat" where
  "enum_value ASIGNED = 1"
| "enum_value ARRIVAL = 2"
| "enum_value FINISH = 3"

text \<open>\<^verbatim>\<open>EventType.__lt__\<close>: members compare by their values.\<close>

definition EventType_lt :: "EventType \<Rightarrow> EventType \<Rightarrow> bool" where
  "EventType_lt e other = (enum_value e < enum_value other)"

text \<open>
  A queue entry is the tuple \<^verbatim>\<open>(t, (e, c, i))\<close>: time, kind, client, station.
\<close>

type_synonym event = "real \<times> EventType \<times> nat \<times> nat"

text \<open>
  Python compares tuples lexicographically: the first position where the two differ
  decides, by \<^verbatim>\<open><\<close> of that position. So entries are ordered by time, then kind,
  then client, then station.
\<close>

fun tuple_lt :: "event \<Rightarrow> event \<Rightarrow> bool" where
  "tuple_lt (t1, e1, c1, i1) (t2, e2, c2, i2) =
     (if t1 \<noteq> t2 then t1 < t2
      else if e1 \<noteq> e2 then EventType_lt e1 e2
      else if c1 \<noteq> c2 then c1 < c2
      else i1 < i2)"

text \<open>
  \<^verbatim>\<open>queue.PriorityQueue\<close> keeps a binary heap of the entries, and \<^verbatim>\<open>get\<close> returns
  a least one under the tuple order. That order is total and equal tuples cannot be
  told apart, so the model keeps the pending entries in insertion order: \<open>put\<close>
  appends, \<open>get\<close> takes out the least entry. \<^verbatim>\<open>get\<close> on an empty queue would block;
  the model returns \<open>None\<close> there (the engine checks \<^verbatim>\<open>empty()\<close> first).
\<close>

definition put :: "event list \<Rightarrow> event \<Rightarrow> event list" where
  "put evs ev = evs @ [ev]"

fun least_from :: "event \<Rightarrow> event list \<Rightarrow> event" where
  "least_from m [] = m"
| "least_from m (x # xs) = least_from (if tuple_lt x m then x else m) xs"

definition get :: "event list \<Rightarrow> (event \<times> event list) option" where
  "get evs =
     (case evs of
        [] \<Rightarrow> None
      | x # xs \<Rightarrow> (let m = least_from x xs in Some (m, remove1 m evs)))"

subsection \<open>Randomness and errors\<close>

datatype error = IndexError | ZeroDivisionError

text \<open>
  What the generator returns at its \<open>k\<close>-th call: \<open>unit_exp k\<close> is the value of
  \<^verbatim>\<open>-log(1.0 - random())\<close>, \<open>unif k\<close> the value of \<^verbatim>\<open>random.uniform(0,1)\<close>, and
  \<open>randbelow k m\<close> the index \<^verbatim>\<open>random.choice\<close> picks in a sequence of length \<open>m\<close>.
\<close>

record random_source =
  unit_exp :: "nat \<Rightarrow> real"
  unif :: "nat \<Rightarrow> real"
  randbelow :: "nat \<Rightarrow> nat \<Rightarrow> nat"

text \<open>\<^verbatim>\<open>random.expovariate(lambd)\<close> is \<^verbatim>\<open>-log(1.0 - random()) / lambd\<close>.\<close>

definition expovariate :: "random_source \<Rightarrow> nat \<Rightarrow> real \<Rightarrow> error + real" where
  "expovariate R k lambd =
     (if lambd = 0 then Inl ZeroDivisionError else Inr (unit_exp R k / lambd))"

text \<open>\<^verbatim>\<open>random.choice(seq)\<close> is \<^verbatim>\<open>seq[randbelow(len(seq))]\<close>.\<close>

definition choice :: "random_source \<Rightarrow> nat \<Rightarrow> nat list \<Rightarrow> error + nat" where
  "choice R k xs =
     (if randbelow R k (length xs) < length xs
      then Inr (xs ! randbelow R k (length xs)) else Inl IndexError)"

subsection \<open>The state of one run\<close>

text \<open>
  The arguments of \<^verbatim>\<open>servers_simulation\<close>. The fields carry the prefix \<open>cfg_\<close>
  because \<open>n\<close>, \<open>p\<close> and \<open>time\<close> would otherwise be taken by every variable of
  that name.
\<close>

record config =
  cfg_time :: real
  cfg_n :: int
  cfg_lambda_arrival_time :: real
  cfg_mu_wait_time :: "real list"
  cfg_p :: "real list"
  cfg_finish :: bool

text \<open>
  The local variables of \<^verbatim>\<open>servers_simulation\<close> (prefix \<open>st_\<close>), and the number of
  calls made to the generator. A dictionary \<^verbatim>\<open>{client: [timestamps]}\<close> is a map.
\<close>

type_synonym stamps = "nat \<rightharpoonup> real list"

record sim_state =
  st_t :: real
  st_events :: "event list"
  st_n_a :: nat
  st_n_d :: nat
  st_a :: "stamps list"
  st_q :: "stamps list"
  st_d :: "stamps list"
  st_queue :: "nat list list"
  st_rng :: nat

text \<open>\<^verbatim>\<open>m.get(k, list())\<close>\<close>

definition dict_get :: "stamps \<Rightarrow> nat \<Rightarrow> real list" where
  "dict_get m k = (case m k of None \<Rightarrow> [] | Some l \<Rightarrow> l)"

text \<open>
  \<^verbatim>\<open>x_t = x[i].get(c, list()); x_t.append(t); x[i][c] = x_t\<close>, for \<open>i\<close> in range.
\<close>

definition record_stamp :: "stamps list \<Rightarrow> nat \<Rightarrow> nat \<Rightarrow> real \<Rightarrow> stamps list" where
  "record_stamp x i c t = x[i := (x ! i)(c \<mapsto> dict_get (x ! i) c @ [t])]"

text \<open>
  Initialisation, up to the first \<^verbatim>\<open>events.put\<close>. \<^verbatim>\<open>range(n)\<close> is empty for
  \<open>n \<le> 0\<close>.
\<close>

definition init :: "random_source \<Rightarrow> config \<Rightarrow> nat \<Rightarrow> error + sim_state" where
  "init R C k0 =
     (case expovariate R k0 (cfg_lambda_arrival_time C) of
        Inl err \<Rightarrow> Inl err
      | Inr x \<Rightarrow>
          Inr \<lparr> st_t = 0,
                st_events = put [] (0 + x, ASIGNED, 0, 0),
                st_n_a = 0,
                st_n_d = 0,
                st_a = replicate (nat (cfg_n C)) Map.empty,
                st_q = replicate (nat (cfg_n C)) Map.empty,
                st_d = replicate (nat (cfg_n C)) Map.empty,
                st_queue = replicate (nat (cfg_n C)) [],
                st_rng = k0 + 1 \<rparr>)"

subsection \<open>The three event handlers\<close>

text \<open>
  Each handler is a branch of the loop body, run after \<^verbatim>\<open>(t, (e, c, i)) = events.get()\<close>
  has set the clock and removed the entry. Indexing a list out of range raises
  \<^verbatim>\<open>IndexError\<close>.
\<close>

definition on_asigned :: "random_source \<Rightarrow> config \<Rightarrow> sim_state \<Rightarrow> nat \<Rightarrow> nat \<Rightarrow> error + sim_state" where
  "on_asigned R C s c i =
     (let index = (if i \<noteq> 0 then c else st_n_a s) in
      if \<not> i < length (st_q s) \<or> \<not> i < length (st_queue s) then Inl IndexError
      else
        let s1 = s\<lparr> st_q := record_stamp (st_q s) i index (st_t s),
                    st_events :=
                      (if length (st_queue s ! i) = 0
                       then put (st_events s) (st_t s, ARRIVAL, index, i)
                       else st_events s),
                    st_queue := (st_queue s)[i := st_queue s ! i @ [index]] \<rparr>
        in
          if i = 0 then
            (case expovariate R (st_rng s1) (cfg_lambda_arrival_time C) of
               Inl err \<Rightarrow> Inl err
             | Inr t_next_a \<Rightarrow>
                 Inr (s1\<lparr> st_n_a := st_n_a s1 + 1,
                          st_rng := st_rng s1 + 1,
                          st_events :=
                            (if st_t s1 + t_next_a < cfg_time C
                             then put (st_events s1) (st_t s1 + t_next_a, ASIGNED, 0, 0)
                             else st_events s1) \<rparr>))
          else Inr s1)"

definition on_arrival :: "random_source \<Rightarrow> config \<Rightarrow> sim_state \<Rightarrow> nat \<Rightarrow> nat \<Rightarrow> error + sim_state" where
  "on_arrival R C s c i =
     (if \<not> i < length (st_a s) \<or> \<not> i < length (cfg_mu_wait_time C) then Inl IndexError
      else
        (case expovariate R (st_rng s) (cfg_mu_wait_time C ! i) of
           Inl err \<Rightarrow> Inl err
         | Inr duration \<Rightarrow>
             Inr (s\<lparr> st_a := record_stamp (st_a s) i c (st_t s),
                     st_rng := st_rng s + 1,
                     st_events := put (st_events s) (st_t s + duration, FINISH, c, i) \<rparr>)))"

text \<open>
  The routing expression
  \<^verbatim>\<open>i+1 if i == 0 or random.uniform(0,1) > p[i] else random.choice([j for j in range(i)])\<close>.
  It returns the successor and the number of calls made to the generator.
\<close>

definition next_server :: "random_source \<Rightarrow> config \<Rightarrow> nat \<Rightarrow> nat \<Rightarrow> error + (nat \<times> nat)" where
  "next_server R C k i =
     (if i = 0 then Inr (i + 1, k)
      else if \<not> i < length (cfg_p C) then Inl IndexError
      else if unif R k > cfg_p C ! i then Inr (i + 1, k + 1)
      else (case choice R (k + 1) [0..<i] of
              Inl err \<Rightarrow> Inl err
            | Inr j \<Rightarrow> Inr (j, k + 2)))"

definition on_finish :: "random_source \<Rightarrow> config \<Rightarrow> sim_state \<Rightarrow> nat \<Rightarrow> nat \<Rightarrow> error + sim_state" where
  "on_finish R C s c i =
     (if \<not> i < length (st_queue s) \<or> \<not> i < length (st_d s) then Inl IndexError
      else
        let popped = (if length (st_queue s ! i) > 0 then tl (st_queue s ! i) else st_queue s ! i);
            s1 = s\<lparr> st_queue := (st_queue s)[i := popped],
                    st_events :=
                      (if length popped > 0
                       then put (st_events s) (st_t s, ARRIVAL, hd popped, i)
                       else st_events s),
                    st_d := record_stamp (st_d s) i c (st_t s) \<rparr>
        in
          if int i = cfg_n C - 1 then Inr (s1\<lparr> st_n_d := st_n_d s1 + 1 \<rparr>)
          else
            (case next_server R C (st_rng s1) i of
               Inl err \<Rightarrow> Inl err
             | Inr (j, k') \<Rightarrow>
                 Inr (s1\<lparr> st_rng := k',
                          st_events := put (st_events s1) (st_t s1, ASIGNED, c, j) \<rparr>)))"

subsection \<open>The dispatch loop\<close>

text \<open>The loop test \<^verbatim>\<open>(finish or t < time) and not events.empty()\<close>.\<close>

definition loop_cond :: "config \<Rightarrow> sim_state \<Rightarrow> bool" where
  "loop_cond C s = ((cfg_finish C \<or> st_t s < cfg_time C) \<and> st_events s \<noteq> [])"

text \<open>
  One pass through the loop body. The loop test has found the queue non-empty, so
  \<open>get\<close> returns an entry.
\<close>

definition step :: "random_source \<Rightarrow> config \<Rightarrow> sim_state \<Rightarrow> error + sim_state" where
  "step R C s =
     (case get (st_events s) of
        None \<Rightarrow> Inr s
      | Some ((t, e, c, i), rest) \<Rightarrow>
          (let s0 = s\<lparr> st_t := t, st_events := rest \<rparr> in
           case e of
             ASIGNED \<Rightarrow> on_asigned R C s0 c i
           | ARRIVAL \<Rightarrow> on_arrival R C s0 c i
           | FINISH \<Rightarrow> on_finish R C s0 c i))"

text \<open>
  The state after at most \<open>k\<close> passes (fewer when the loop test fails earlier): the
  points of a run.
\<close>

fun after_passes :: "nat \<Rightarrow> random_source \<Rightarrow> config \<Rightarrow> sim_state \<Rightarrow> error + sim_state" where
  "after_passes 0 R C s = Inr s"
| "after_passes (Suc k) R C s =
     (if loop_cond C s
      then (case step R C s of Inl err \<Rightarrow> Inl err | Inr s' \<Rightarrow> after_passes k R C s')
      else Inr s)"

text \<open>
  The whole loop: \<open>None\<close> when the fuel runs out before the loop test fails,
  otherwise the exception raised or the state at loop exit.
\<close>

fun run :: "nat \<Rightarrow> random_source \<Rightarrow> config \<Rightarrow> sim_state \<Rightarrow> (error + sim_state) option" where
  "run 0 R C s = (if loop_cond C s then None else Some (Inr s))"
| "run (Suc fuel) R C s =
     (if loop_cond C s
      then (case step R C s of Inl err \<Rightarrow> Some (Inl err) | Inr s' \<Rightarrow> run fuel R C s')
      else Some (Inr s))"

text \<open>
  \<^verbatim>\<open>servers_simulation\<close> at state level: initialise, then loop. \<open>k0\<close> is the number
  of calls made to the generator before the run.
\<close>

definition simulate :: "nat \<Rightarrow> random_source \<Rightarrow> config \<Rightarrow> nat \<Rightarrow> (error + sim_state) option" where
  "simulate fuel R C k0 =
     (case init R C k0 of Inl err \<Rightarrow> Some (Inl err) | Inr s0 \<Rightarrow> run fuel R C s0)"

text \<open>The returned tuple \<^verbatim>\<open>t, n, n_a, n_d, q, a, d\<close>.\<close>

type_synonym sim_result = "real \<times> int \<times> nat \<times> nat \<times> stamps list \<times> stamps list \<times> stamps list"

definition result_of :: "config \<Rightarrow> sim_state \<Rightarrow> sim_result" where
  "result_of C s = (st_t s, cfg_n C, st_n_a s, st_n_d s, st_q s, st_a s, st_d s)"

definition servers_simulation :: "nat \<Rightarrow> random_source \<Rightarrow> config \<Rightarrow> nat \<Rightarrow> (error + sim_result) option" where
  "servers_simulation fuel R C k0 =
     map_option (map_sum id (result_of C)) (simulate fuel R C k0)"

text \<open>
  The state after at most \<open>k\<close> passes of a run that starts with \<open>k0\<close> calls already
  made to the generator.
\<close>

definition passes :: "nat \<Rightarrow> random_source \<Rightarrow> config \<Rightarrow> nat \<Rightarrow> error + sim_state" where
  "passes k R C k0 = (case init R C k0 of Inl err \<Rightarrow> Inl err | Inr s0 \<Rightarrow> after_passes k R C s0)"

subsection \<open>The metrics reducer\<close>

text \<open>
  The class \<^verbatim>\<open>Metrics\<close> (fields with the prefix \<open>m_\<close>). \<^verbatim>\<open>np.mean\<close> of an empty
  list is \<^verbatim>\<open>nan\<close>: the value \<open>None\<close>.
\<close>

record Metrics =
  m_time :: real
  m_n_d :: nat
  m_wait_time :: "real option list"
  m_use_time :: "real option list"
  m_system_time :: "real list"

definition np_mean :: "real list \<Rightarrow> real option" where
  "np_mean xs = (if xs = [] then None else Some (sum_list xs / real (length xs)))"

text \<open>
  \<^verbatim>\<open>sum(y - x for x, y in zip(xs, ys)) / len(ys)\<close>: the mean wait over the visits
  (\<^verbatim>\<open>zip\<close> stops at the shorter list).
\<close>

definition visit_mean :: "real list \<Rightarrow> real list \<Rightarrow> real" where
  "visit_mean xs ys = sum_list (map (\<lambda>(x, y). y - x) (zip xs ys)) / real (length ys)"

text \<open>
  The body of the loop over clients \<open>c\<close> at station \<open>s\<close>, on the three lists it
  updates. The counters \<^verbatim>\<open>on_queue\<close> and \<^verbatim>\<open>processing\<close> are written and never read,
  and are left out. The trace lists have \<open>n\<close> entries (lemma \<open>trace_lengths\<close> below)
  and \<^verbatim>\<open>system_time\<close> has \<open>n_a\<close>, so every index is in range; \<^verbatim>\<open>q_t[0]\<close> and
  \<^verbatim>\<open>d_t[-1]\<close> are read from non-empty lists only.
\<close>

definition per_client ::
  "sim_result \<Rightarrow> nat \<Rightarrow> nat \<Rightarrow> real list \<times> real list \<times> real list
     \<Rightarrow> real list \<times> real list \<times> real list" where
  "per_client res s c acc =
     (case (res, acc) of ((t, n, n_a, n_d, q, a, d), (wait_time_per_client, use_time_per_client, system_time)) \<Rightarrow>
        let q_t = dict_get (q ! s) c; a_t = dict_get (a ! s) c; d_t = dict_get (d ! s) c in
        if length q_t = 0 then (wait_time_per_client, use_time_per_client, system_time)
        else if length a_t = 0
          then (wait_time_per_client @ [t - q_t ! 0], use_time_per_client, system_time)
        else if length d_t = 0
          then (wait_time_per_client @ [visit_mean q_t a_t], use_time_per_client, system_time)
        else
          let w_t = visit_mean q_t a_t;
              u_t = sum_list (map (\<lambda>(x, y). y - x) (zip a_t d_t)) / real (length a_t);
              system_time1 = (if s = 0 \<and> c < n_d
                 then system_time[c := system_time ! c - q_t ! 0] else system_time);
              system_time2 = (if int s = n - 1 \<and> c < n_d
                 then system_time1[c := system_time1 ! c + last d_t] else system_time1)
          in (wait_time_per_client @ [w_t], use_time_per_client @ [u_t], system_time2))"

text \<open>
  The body of the loop over stations, and the reducer on the tuple the engine returns.
\<close>

definition per_station ::
  "sim_result \<Rightarrow> nat \<Rightarrow> real option list \<times> real option list \<times> real list
     \<Rightarrow> real option list \<times> real option list \<times> real list" where
  "per_station res s acc =
     (case (res, acc) of ((t, n, n_a, n_d, q, a, d), (wait_time, use_time, system_time)) \<Rightarrow>
        (case fold (per_client res s) [0..<n_a] ([], [], system_time) of
           (wait_time_per_client, use_time_per_client, system_time') \<Rightarrow>
             (wait_time @ [np_mean wait_time_per_client],
              use_time @ [np_mean use_time_per_client], system_time')))"

definition metrics_of :: "sim_result \<Rightarrow> Metrics" where
  "metrics_of res =
     (case res of (t, n, n_a, n_d, q, a, d) \<Rightarrow>
        (case fold (per_station res) [0..<nat n] ([], [], replicate n_a 0) of
           (wait_time, use_time, system_time) \<Rightarrow>
             \<lparr> m_time = t, m_n_d = n_d, m_wait_time = wait_time, m_use_time = use_time,
               m_system_time = system_time \<rparr>))"

text \<open>
  \<^verbatim>\<open>metrics_by_simulation\<close>: run the engine, reduce its trace. The second
  component is the number of calls made to the generator when the run ended.
\<close>

definition metrics_by_simulation ::
  "nat \<Rightarrow> random_source \<Rightarrow> config \<Rightarrow> nat \<Rightarrow> (error + Metrics \<times> nat) option" where
  "metrics_by_simulation fuel R C k0 =
     (case simulate fuel R C k0 of
        None \<Rightarrow> None
      | Some (Inl err) \<Rightarrow> Some (Inl err)
      | Some (Inr s) \<Rightarrow> Some (Inr (metrics_of (result_of C s), st_rng s)))"

subsection \<open>The replication loop\<close>

text \<open>
  \<^verbatim>\<open>np.mean\<close>, \<^verbatim>\<open>np.var\<close> and \<^verbatim>\<open>np.std\<close> of a list that may hold \<^verbatim>\<open>nan\<close>
  (a \<^verbatim>\<open>nan\<close> entry makes the result \<^verbatim>\<open>nan\<close>), and the convergence test
  \<^verbatim>\<open>standard_deviation/len(system_time) < convergence_threshold\<close>, which is false
  for \<^verbatim>\<open>nan\<close>.
\<close>

definition nan_mean :: "real option list \<Rightarrow> real option" where
  "nan_mean xs = (if None \<in> set xs then None else np_mean (map the xs))"

definition np_var :: "real option list \<Rightarrow> real option" where
  "np_var xs =
     (case nan_mean xs of
        None \<Rightarrow> None
      | Some m \<Rightarrow> np_mean (map (\<lambda>x. (the x - m)\<^sup>2) xs))"

definition np_std :: "real option list \<Rightarrow> real option" where
  "np_std xs = map_option sqrt (np_var xs)"

definition converged :: "real option list \<Rightarrow> real \<Rightarrow> bool" where
  "converged system_time convergence_threshold =
     (case np_std system_time of
        None \<Rightarrow> False
      | Some standard_deviation \<Rightarrow>
          standard_deviation / real (length system_time) < convergence_threshold)"

text \<open>
  The \<^verbatim>\<open>while True\<close> loop of \<^verbatim>\<open>run_simulation\<close>, on the three lists of per-run
  means (system, wait, use). The notebook fixes \<^verbatim>\<open>min_iterations = 1000\<close>,
  \<^verbatim>\<open>max_iterations = 5000\<close> and \<^verbatim>\<open>convergence_threshold = 0.001\<close>; here they are
  arguments, and \<open>run_simulation\<close> below supplies the notebook's values. Each
  replication has the same fuel; the loop itself ends because \<open>iterations\<close> grows
  towards \<open>max_iterations\<close>.
\<close>

type_synonym samples = "real option list \<times> real option list \<times> real option list"

function replications ::
  "nat \<Rightarrow> random_source \<Rightarrow> config \<Rightarrow> nat \<Rightarrow> nat \<Rightarrow> real \<Rightarrow> nat \<Rightarrow> samples \<Rightarrow> nat
     \<Rightarrow> (error + samples) option" where
  "replications fuel R C min_iterations max_iterations convergence_threshold iterations acc k =
     (case metrics_by_simulation fuel R C k of
        None \<Rightarrow> None
      | Some (Inl err) \<Rightarrow> Some (Inl err)
      | Some (Inr (metrics, k')) \<Rightarrow>
          (case acc of (system_time, wait_time, use_time) \<Rightarrow>
            let system_time' = system_time @ [np_mean (m_system_time metrics)];
                wait_time' = wait_time @ [nan_mean (m_wait_time metrics)];
                use_time' = use_time @ [nan_mean (m_use_time metrics)]
            in
              if iterations + 1 \<ge> max_iterations
                then Some (Inr (system_time', wait_time', use_time'))
              else if iterations + 1 \<ge> min_iterations
                      \<and> converged system_time' convergence_threshold
                then Some (Inr (system_time', wait_time', use_time'))
              else replications fuel R C min_iterations max_iterations convergence_threshold
                     (iterations + 1) (system_time', wait_time', use_time') k'))"
  by pat_completeness auto

termination
  by (relation "measure (\<lambda>(fuel, R, C, mn, mx, thr, it, acc, k). mx - it)") auto

declare replications.simps [simp del]

text \<open>
  The returned dictionary: (variance, mean) of the wait, use and system lists.
\<close>

type_synonym report = "(real option \<times> real option) \<times> (real option \<times> real option) \<times> (real option \<times> real option)"

definition run_simulation :: "nat \<Rightarrow> random_source \<Rightarrow> config \<Rightarrow> nat \<Rightarrow> (error + report) option" where
  "run_simulation fuel R C k =
     map_option (map_sum id (\<lambda>(system_time, wait_time, use_time).
        ((np_var wait_time, nan_mean wait_time),
         (np_var use_time, nan_mean use_time),
         (np_var system_time, nan_mean system_time))))
       (replications fuel R C 1000 5000 (1 / 1000) 0 ([], [], []) k)"

section \<open>Notions used in the statements and proofs\<close>

text \<open>
  The valid configurations in the words of the specification (its section 7): the
  engine has no such check, and the definition only serves to state that.
\<close>

definition valid_config :: "config \<Rightarrow> bool" where
  "valid_config C =
     (1 \<le> cfg_n C \<and> 0 < cfg_lambda_arrival_time C \<and>
      (\<forall>mu \<in> set (cfg_mu_wait_time C). 0 < mu) \<and>
      (\<forall>x \<in> set (cfg_p C). 0 \<le> x \<and> x \<le> 1) \<and>
      int (length (cfg_mu_wait_time C)) = cfg_n C \<and> int (length (cfg_p C)) = cfg_n C)"

text \<open>
  Client \<open>c\<close> has a queue-entry, a service-start and a departure stamp at station
  \<open>s\<close>: the case in which the reducer reaches its system-time update.
\<close>

definition has_visit :: "stamps list \<Rightarrow> stamps list \<Rightarrow> stamps list \<Rightarrow> nat \<Rightarrow> nat \<Rightarrow> bool" where
  "has_visit q a d s c =
     (dict_get (q ! s) c \<noteq> [] \<and> dict_get (a ! s) c \<noteq> [] \<and> dict_get (d ! s) c \<noteq> [])"

text \<open>
  What a client adds to its system-time entry at station \<open>s\<close>.
\<close>

definition sys_delta :: "sim_result \<Rightarrow> nat \<Rightarrow> nat \<Rightarrow> real" where
  "sys_delta res s c =
     (case res of (t, n, n_a, n_d, q, a, d) \<Rightarrow>
        if has_visit q a d s c \<and> c < n_d
        then (if int s = n - 1 then last (dict_get (d ! s) c) else 0)
             - (if s = 0 then dict_get (q ! s) c ! 0 else 0)
        else 0)"

text \<open>
  The clock, the two counters and the pending entries of a returned state.
\<close>

definition run_summary :: "(error + sim_state) option \<Rightarrow> (real \<times> nat \<times> nat \<times> event list) option" where
  "run_summary r =
     (case r of Some (Inr s) \<Rightarrow> Some (st_t s, st_n_a s, st_n_d s, st_events s) | _ \<Rightarrow> None)"

text \<open>
  The tuple order as a non-strict order.
\<close>

definition tuple_le :: "event \<Rightarrow> event \<Rightarrow> bool" where
  "tuple_le x y = (\<not> tuple_lt y x)"

text \<open>
  The pending service events of a station (its Arrival and Finish entries), the client of
  an entry, and the head of each station queue as a list of length at most one.
\<close>

definition in_service :: "event list \<Rightarrow> nat \<Rightarrow> event list" where
  "in_service evs i = filter (\<lambda>ev. fst (snd ev) \<noteq> ASIGNED \<and> snd (snd (snd ev)) = i) evs"

definition heads :: "nat list list \<Rightarrow> nat \<Rightarrow> nat list" where
  "heads qs i = (if i < length qs then take 1 (qs ! i) else [])"

definition client_of :: "event \<Rightarrow> nat" where
  "client_of ev = fst (snd (snd ev))"

text \<open>
  The pending service entries of a station are one entry for the head of its queue,
  and none when the queue is empty.
\<close>

definition serving_inv :: "sim_state \<Rightarrow> bool" where
  "serving_inv s = (\<forall>i. map client_of (in_service (st_events s) i) = heads (st_queue s) i)"

text \<open>
  The number of pending entries of a kind for a client at a station, and the number of
  times a client waits behind the head of a station queue. With them the three stamp
  lists of a client at a station are tied together.
\<close>

definition pending :: "EventType \<Rightarrow> nat \<Rightarrow> nat \<Rightarrow> event list \<Rightarrow> nat" where
  "pending e c i evs = length (filter (\<lambda>ev. snd ev = (e, c, i)) evs)"

definition waiting :: "nat list list \<Rightarrow> nat \<Rightarrow> nat \<Rightarrow> nat" where
  "waiting qs c i = length (filter (\<lambda>x. x = c) (tl (qs ! i)))"

definition stamps_inv :: "sim_state \<Rightarrow> bool" where
  "stamps_inv s =
     (length (st_a s) = length (st_queue s) \<and> length (st_q s) = length (st_queue s) \<and>
      length (st_d s) = length (st_queue s) \<and>
      (\<forall>i < length (st_queue s). \<forall>c.
         length (dict_get (st_d s ! i) c) + pending FINISH c i (st_events s)
           = length (dict_get (st_a s ! i) c) \<and>
         length (dict_get (st_a s ! i) c) + pending ARRIVAL c i (st_events s)
             + waiting (st_queue s) c i
           = length (dict_get (st_q s ! i) c)))"

text \<open>
  Clients travelling to a station other than station 0, clients in the station queues,
  and with the departed ones the clients the system has accounted for.
\<close>

definition in_transit :: "event list \<Rightarrow> nat" where
  "in_transit evs = length (filter (\<lambda>ev. fst (snd ev) = ASIGNED \<and> snd (snd (snd ev)) \<noteq> 0) evs)"

definition in_queues :: "nat list list \<Rightarrow> nat" where
  "in_queues qs = sum_list (map length qs)"

definition inside :: "sim_state \<Rightarrow> nat" where
  "inside s = st_n_d s + in_queues (st_queue s) + in_transit (st_events s)"

text \<open>
  Whether the pass about to run sends a client back to station 0 (the entry handed
  to the loop body is a \<open>Finish\<close> before the last station and the routing picks
  station 0), and the number of such passes among the next \<open>k\<close>.
\<close>

definition sent_back_to_0 :: "random_source \<Rightarrow> config \<Rightarrow> sim_state \<Rightarrow> nat" where
  "sent_back_to_0 R C s =
     (case get (st_events s) of
        None \<Rightarrow> 0
      | Some ((t, e, c, i), rest) \<Rightarrow>
          if e = FINISH \<and> int i \<noteq> cfg_n C - 1
          then (case next_server R C (st_rng s) i of
                  Inl err \<Rightarrow> 0
                | Inr (j, k') \<Rightarrow> if j = 0 then 1 else 0)
          else 0)"

fun returns_to_0 :: "nat \<Rightarrow> random_source \<Rightarrow> config \<Rightarrow> sim_state \<Rightarrow> nat" where
  "returns_to_0 0 R C s = 0"
| "returns_to_0 (Suc k) R C s =
     (if loop_cond C s
      then (case step R C s of
              Inl err \<Rightarrow> 0
            | Inr s' \<Rightarrow> sent_back_to_0 R C s + returns_to_0 k R C s')
      else 0)"

section \<open>Sample inputs\<close>

text \<open>
  Two generators: every draw is 1; and the same with the fifth call (the first
  routing draw of the sample runs) returning 0.
\<close>

definition unit_source :: random_source where
  "unit_source = \<lparr> unit_exp = (\<lambda>k. 1), unif = (\<lambda>k. 1), randbelow = (\<lambda>k m. 0) \<rparr>"

definition zero_draw_source :: random_source where
  "zero_draw_source =
     \<lparr> unit_exp = (\<lambda>k. 1), unif = (\<lambda>k. if k = 4 then 0 else 1), randbelow = (\<lambda>k m. 0) \<rparr>"

text \<open>
  Networks drained to completion: two and three stations without feedback, and three
  stations with feedback probability 1/2 at station 1.
\<close>

definition tandem2 :: config where
  "tandem2 = \<lparr> cfg_time = 2, cfg_n = 2, cfg_lambda_arrival_time = 1,
      cfg_mu_wait_time = [1, 1], cfg_p = [0, 0], cfg_finish = True \<rparr>"

definition tandem3 :: config where
  "tandem3 = \<lparr> cfg_time = 2, cfg_n = 3, cfg_lambda_arrival_time = 1,
      cfg_mu_wait_time = [1, 1, 1], cfg_p = [0, 0, 0], cfg_finish = True \<rparr>"

definition tandem3_feedback :: config where
  "tandem3_feedback = \<lparr> cfg_time = 2, cfg_n = 3, cfg_lambda_arrival_time = 1,
      cfg_mu_wait_time = [1, 1, 1], cfg_p = [0, 1/2, 0], cfg_finish = True \<rparr>"

text \<open>
  Fixed-horizon runs (drain flag false) with horizon 5 and horizon 1.
\<close>

definition short_horizon :: config where
  "short_horizon = \<lparr> cfg_time = 5, cfg_n = 2, cfg_lambda_arrival_time = 1/2,
      cfg_mu_wait_time = [1/2, 1], cfg_p = [0, 0], cfg_finish = False \<rparr>"

definition early_stop :: config where
  "early_stop = \<lparr> cfg_time = 1, cfg_n = 2, cfg_lambda_arrival_time = 1/2,
      cfg_mu_wait_time = [1, 1], cfg_p = [0, 0], cfg_finish = False \<rparr>"

text \<open>
  A fixed-horizon run in which a client overtakes another: four stations, feedback
  probability 1/2 at station 2, horizon 5.5; the thirteenth call of the generator (the
  routing draw of client 0 after station 2) returns 0, and \<^verbatim>\<open>random.choice\<close> takes
  the last station offered.
\<close>

definition overtaking_source :: random_source where
  "overtaking_source =
     \<lparr> unit_exp = (\<lambda>k. 1), unif = (\<lambda>k. if k = 12 then 0 else 1), randbelow = (\<lambda>k m. m - 1) \<rparr>"

definition tandem4_horizon :: config where
  "tandem4_horizon = \<lparr> cfg_time = 11/2, cfg_n = 4, cfg_lambda_arrival_time = 1,
      cfg_mu_wait_time = [1, 1, 1, 2], cfg_p = [0, 0, 1/2, 0], cfg_finish = False \<rparr>"

text \<open>
  Four stations without feedback, drained to completion, and a generator whose seventh
  call (the routing draw after station 2) returns 0, \<^verbatim>\<open>random.choice\<close> taking the
  last station offered: the client is sent back from station 2 to station 1.
\<close>

definition late_zero_draw_source :: random_source where
  "late_zero_draw_source =
     \<lparr> unit_exp = (\<lambda>k. 1), unif = (\<lambda>k. if k = 6 then 0 else 1), randbelow = (\<lambda>k m. m - 1) \<rparr>"

definition tandem4 :: config where
  "tandem4 = \<lparr> cfg_time = 2, cfg_n = 4, cfg_lambda_arrival_time = 1,
      cfg_mu_wait_time = [1, 1, 1, 1], cfg_p = [0, 0, 0, 0], cfg_finish = True \<rparr>"

text \<open>
  Configurations the specification calls invalid: a feedback probability of -1 and a
  rate list longer than \<open>n\<close>; no station at all; a zero arrival rate.
\<close>

definition unvalidated :: config where
  "unvalidated = \<lparr> cfg_time = 2, cfg_n = 3, cfg_lambda_arrival_time = 1,
      cfg_mu_wait_time = [1, 1, 1, 1], cfg_p = [0, -1, 0], cfg_finish = True \<rparr>"

definition no_stations :: config where
  "no_stations = \<lparr> cfg_time = 2, cfg_n = 0, cfg_lambda_arrival_time = 1,
      cfg_mu_wait_time = [], cfg_p = [], cfg_finish = True \<rparr>"

definition zero_rate :: config where
  "zero_rate = \<lparr> cfg_time = 2, cfg_n = 1, cfg_lambda_arrival_time = 0,
      cfg_mu_wait_time = [1], cfg_p = [0], cfg_finish = True \<rparr>"

section \<open>Properties\<close>

text \<open>
  The unfolding rules that evaluate a run on a sample input.
\<close>

lemmas engine_defs = init_def expovariate_def put_def loop_cond_def step_def get_def
    on_asigned_def on_arrival_def on_finish_def next_server_def choice_def record_stamp_def
    dict_get_def Let_def EventType_lt_def

lemmas metrics_defs = metrics_by_simulation_def metrics_of_def per_station_def per_client_def
  np_mean_def visit_mean_def result_of_def

subsection \<open>The order of the event queue\<close>

lemma least_from_mem: "least_from m xs = m \<or> least_from m xs \<in> set xs"
  by (induction xs arbitrary: m) (auto split: if_splits)

lemma get_SomeD:
  assumes "get evs = Some (ev, rest)"
  shows "ev \<in> set evs \<and> rest = remove1 ev evs"
proof (cases evs)
  case Nil
  with assms show ?thesis by (simp add: get_def)
next
  case (Cons x xs)
  with assms have ev: "ev = least_from x xs" and rest: "rest = remove1 ev evs"
    by (auto simp: get_def Let_def simp del: remove1.simps)
  from least_from_mem [of x xs] ev Cons have "ev \<in> set evs" by auto
  with rest show ?thesis by simp
qed

lemma enum_value_inj: "enum_value e = enum_value e' \<Longrightarrow> e = e'"
  by (cases e; cases e') simp_all

lemma tuple_le_refl: "tuple_le x x"
  by (cases x) (simp add: tuple_le_def)

lemma tuple_lt_asym: "tuple_lt x y \<Longrightarrow> \<not> tuple_lt y x"
  by (cases x; cases y) (auto simp: EventType_lt_def split: if_splits)

lemma tuple_le_trans: "tuple_le x y \<Longrightarrow> tuple_le y z \<Longrightarrow> tuple_le x z"
  by (cases x; cases y; cases z)
     (auto simp: tuple_le_def EventType_lt_def split: if_splits dest: enum_value_inj)

lemma least_from_least:
  "tuple_le (least_from m xs) m \<and> (\<forall>x \<in> set xs. tuple_le (least_from m xs) x)"
proof (induction xs arbitrary: m)
  case Nil
  show ?case by (simp add: tuple_le_refl)
next
  case (Cons x xs)
  let ?m = "if tuple_lt x m then x else m"
  from Cons.IH [of ?m] have a: "tuple_le (least_from ?m xs) ?m"
    and b: "\<forall>y \<in> set xs. tuple_le (least_from ?m xs) y"
    by simp_all
  have "tuple_le ?m m" and "tuple_le ?m x"
    using tuple_lt_asym [of x m] tuple_le_refl [of x] tuple_le_refl [of m]
    by (auto simp: tuple_le_def)
  with a have "tuple_le (least_from ?m xs) m" "tuple_le (least_from ?m xs) x"
    using tuple_le_trans by blast+
  with b show ?case by simp
qed

text \<open>
  Claim C4, as amended. \<open>get\<close> yields a pending entry that is least in the order
  (time, kind, client, station), and removes it: among pending entries of the same
  time and kind the one with the smaller client identifier (then the smaller station)
  comes first, whatever the insertion order.
\<close>

theorem get_least:
  assumes "get evs = Some ((t, e, c, i), rest)"
  shows "(t, e, c, i) \<in> set evs \<and> rest = remove1 (t, e, c, i) evs \<and>
     (\<forall>(t', e', c', i') \<in> set evs.
        t \<le> t' \<and> (t' = t \<longrightarrow> enum_value e \<le> enum_value e' \<and>
          (e' = e \<longrightarrow> c \<le> c' \<and> (c' = c \<longrightarrow> i \<le> i'))))"
proof -
  from get_SomeD [OF assms] have mem: "(t, e, c, i) \<in> set evs"
    and rest: "rest = remove1 (t, e, c, i) evs"
    by simp_all
  have least: "tuple_le (t, e, c, i) x" if "x \<in> set evs" for x
  proof (cases evs)
    case Nil
    with that show ?thesis by simp
  next
    case (Cons y ys)
    with assms have "(t, e, c, i) = least_from y ys"
      by (simp add: get_def Let_def)
    with least_from_least [of y ys] that Cons show ?thesis by auto
  qed
  have "t \<le> t' \<and> (t' = t \<longrightarrow> enum_value e \<le> enum_value e' \<and>
          (e' = e \<longrightarrow> c \<le> c' \<and> (c' = c \<longrightarrow> i \<le> i')))"
    if "(t', e', c', i') \<in> set evs" for t' e' c' i'
    using least [OF that]
    by (auto simp: tuple_le_def EventType_lt_def split: if_splits)
  with mem rest show ?thesis by blast
qed

theorem get_least_witness:
  "get [(4, ARRIVAL, 1, 0), (4, ARRIVAL, 0, 1)] = Some ((4, ARRIVAL, 0, 1), [(4, ARRIVAL, 1, 0)]) \<and>
   (4, ARRIVAL, 0, 1) \<in> set [(4::real, ARRIVAL, 1::nat, 0::nat), (4, ARRIVAL, 0, 1)] \<and>
   (0::nat) \<le> 1"
proof -
  have g: "get [(4, ARRIVAL, 1, 0), (4, ARRIVAL, 0, 1)] = Some ((4, ARRIVAL, 0, 1), [(4, ARRIVAL, 1, 0)])"
    by (simp add: get_def)
  from get_least [OF g] g show ?thesis by simp
qed

text \<open>
  The claim as stated fails: of two Finish entries at time 1, the one inserted second
  comes out first because its client identifier is smaller. The same happens inside a
  run: after five passes of the sample run the queue holds two Arrival entries at time
  4, and the later one is dispatched first.
\<close>

theorem fifo_tie_counterexample:
  "get (put (put [] (1, FINISH, 5, 0)) (1, FINISH, 2, 1))
     = Some ((1, FINISH, 2, 1), [(1, FINISH, 5, 0)]) \<and>
   run_summary (Some (passes 5 unit_source short_horizon 0))
     = Some (4, 2, 0, [(4, ARRIVAL, 1, 0), (4, ARRIVAL, 0, 1)]) \<and>
   get [(4, ARRIVAL, 1, 0), (4, ARRIVAL, 0, 1)] = Some ((4, ARRIVAL, 0, 1), [(4, ARRIVAL, 1, 0)])"
  by (simp add: run_summary_def passes_def engine_defs unit_source_def short_horizon_def
      eval_nat_numeral)

subsection \<open>What one pass does to the state\<close>

text \<open>What a successful handler did to the state.\<close>

lemma on_finish_effect:
  assumes "on_finish R C s c i = Inr s'"
  shows "\<exists>extra. i < length (st_queue s) \<and> i < length (st_d s) \<and>
      st_events s' = st_events s
         @ (if tl (st_queue s ! i) \<noteq> [] then [(st_t s, ARRIVAL, hd (tl (st_queue s ! i)), i)] else [])
         @ extra \<and>
      (if int i = cfg_n C - 1 then extra = [] else (\<exists>j. extra = [(st_t s, ASIGNED, c, j)])) \<and>
      st_queue s' = (st_queue s)[i := tl (st_queue s ! i)] \<and>
      st_d s' = record_stamp (st_d s) i c (st_t s) \<and>
      st_q s' = st_q s \<and> st_a s' = st_a s \<and> st_t s' = st_t s \<and>
      st_n_a s' = st_n_a s \<and> st_n_d s' = st_n_d s + (if int i = cfg_n C - 1 then 1 else 0)"
proof -
  have tl_eq: "\<And>xs::nat list. (if length xs > 0 then tl xs else xs) = tl xs"
    by (case_tac xs) auto
  show ?thesis
    using assms
    by (auto simp: on_finish_def Let_def put_def tl_eq split: if_splits sum.splits prod.splits)
qed

lemma step_cases:
  assumes "step R C s = Inr s'" "st_events s \<noteq> []"
  obtains t e c i where "(t, e, c, i) \<in> set (st_events s)"
    "get (st_events s) = Some ((t, e, c, i), remove1 (t, e, c, i) (st_events s))"
    "e = ASIGNED \<Longrightarrow> on_asigned R C (s\<lparr>st_t := t, st_events := remove1 (t, e, c, i) (st_events s)\<rparr>) c i = Inr s'"
    "e = ARRIVAL \<Longrightarrow> on_arrival R C (s\<lparr>st_t := t, st_events := remove1 (t, e, c, i) (st_events s)\<rparr>) c i = Inr s'"
    "e = FINISH \<Longrightarrow> on_finish R C (s\<lparr>st_t := t, st_events := remove1 (t, e, c, i) (st_events s)\<rparr>) c i = Inr s'"
proof -
  from assms(2) obtain ev rest where g: "get (st_events s) = Some (ev, rest)"
    by (cases "st_events s") (auto simp: get_def Let_def)
  obtain t e c i where ev: "ev = (t, e, c, i)" by (cases ev) auto
  from get_SomeD [OF g] have mem: "ev \<in> set (st_events s)" and rest: "rest = remove1 ev (st_events s)"
    by auto
  show ?thesis
  proof (rule that [of t e c i])
    show "(t, e, c, i) \<in> set (st_events s)" using mem ev by simp
    show "get (st_events s) = Some ((t, e, c, i), remove1 (t, e, c, i) (st_events s))"
      using g ev rest by simp
  qed (use assms(1) g ev rest in \<open>auto simp: step_def Let_def\<close>)
qed

lemma asigned_dispatch:
  assumes "on_asigned R C (s\<lparr>st_t := t, st_events := rest\<rparr>) c i = Inr s'"
  shows "\<exists>extra. i < length (st_q s) \<and> i < length (st_queue s) \<and>
      st_events s' = rest
         @ (if st_queue s ! i = [] then [(t, ARRIVAL, if i \<noteq> 0 then c else st_n_a s, i)] else [])
         @ extra \<and>
      (extra = [] \<or> (i = 0 \<and> (\<exists>tt. extra = [(tt, ASIGNED, 0, 0)]))) \<and>
      st_queue s' = (st_queue s)[i := st_queue s ! i @ [if i \<noteq> 0 then c else st_n_a s]] \<and>
      st_q s' = record_stamp (st_q s) i (if i \<noteq> 0 then c else st_n_a s) t \<and>
      st_a s' = st_a s \<and> st_d s' = st_d s \<and> st_t s' = t \<and>
      st_n_a s' = st_n_a s + (if i = 0 then 1 else 0) \<and> st_n_d s' = st_n_d s"
  using assms
  by (auto simp: on_asigned_def Let_def put_def split: if_splits sum.splits)

lemma arrival_dispatch:
  assumes "on_arrival R C (s\<lparr>st_t := t, st_events := rest\<rparr>) c i = Inr s'"
  shows "\<exists>tt. i < length (st_a s) \<and>
      st_events s' = rest @ [(tt, FINISH, c, i)] \<and>
      st_queue s' = st_queue s \<and>
      st_a s' = record_stamp (st_a s) i c t \<and>
      st_q s' = st_q s \<and> st_d s' = st_d s \<and> st_t s' = t \<and>
      st_n_a s' = st_n_a s \<and> st_n_d s' = st_n_d s"
  using assms
  by (auto simp: on_arrival_def Let_def put_def split: if_splits sum.splits)

lemma finish_dispatch:
  assumes "on_finish R C (s\<lparr>st_t := t, st_events := rest\<rparr>) c i = Inr s'"
  shows "\<exists>extra. i < length (st_queue s) \<and> i < length (st_d s) \<and>
      st_events s' = rest
         @ (if tl (st_queue s ! i) \<noteq> [] then [(t, ARRIVAL, hd (tl (st_queue s ! i)), i)] else [])
         @ extra \<and>
      (if int i = cfg_n C - 1 then extra = [] else (\<exists>j. extra = [(t, ASIGNED, c, j)])) \<and>
      st_queue s' = (st_queue s)[i := tl (st_queue s ! i)] \<and>
      st_d s' = record_stamp (st_d s) i c t \<and>
      st_q s' = st_q s \<and> st_a s' = st_a s \<and> st_t s' = t \<and>
      st_n_a s' = st_n_a s \<and> st_n_d s' = st_n_d s + (if int i = cfg_n C - 1 then 1 else 0)"
  using on_finish_effect [OF assms] by auto

lemma finish_routing:
  assumes "on_finish R C (s\<lparr>st_t := t, st_events := rest\<rparr>) c i = Inr s'" "int i \<noteq> cfg_n C - 1"
  shows "\<exists>j k'. next_server R C (st_rng s) i = Inr (j, k') \<and>
     st_events s' = rest
         @ (if tl (st_queue s ! i) \<noteq> [] then [(t, ARRIVAL, hd (tl (st_queue s ! i)), i)] else [])
         @ [(t, ASIGNED, c, j)]"
proof -
  have tl_eq: "\<And>xs::nat list. (if length xs > 0 then tl xs else xs) = tl xs"
    by (case_tac xs) auto
  show ?thesis
    using assms
    by (auto simp: on_finish_def Let_def put_def tl_eq split: if_splits sum.splits prod.splits)
qed

lemma step_queue_length:
  assumes "step R C s = Inr s'" "st_events s \<noteq> []"
  shows "length (st_queue s') = length (st_queue s)"
proof -
  from assms obtain t e c i where
    asg: "e = ASIGNED \<Longrightarrow> on_asigned R C (s\<lparr>st_t := t, st_events := remove1 (t, e, c, i) (st_events s)\<rparr>) c i = Inr s'"
    and arr: "e = ARRIVAL \<Longrightarrow> on_arrival R C (s\<lparr>st_t := t, st_events := remove1 (t, e, c, i) (st_events s)\<rparr>) c i = Inr s'"
    and fin: "e = FINISH \<Longrightarrow> on_finish R C (s\<lparr>st_t := t, st_events := remove1 (t, e, c, i) (st_events s)\<rparr>) c i = Inr s'"
    by (rule step_cases) blast
  show ?thesis
  proof (cases e)
    case ASIGNED
    from asigned_dispatch [OF asg [OF ASIGNED]] show ?thesis by auto
  next
    case ARRIVAL
    from arrival_dispatch [OF arr [OF ARRIVAL]] show ?thesis by auto
  next
    case FINISH
    from finish_dispatch [OF fin [OF FINISH]] show ?thesis by auto
  qed
qed

text \<open>
  A property kept by every pass holds at every point of a run, and at its end.
\<close>

lemma after_passes_invariant:
  assumes pres: "\<And>s s'. P s \<Longrightarrow> loop_cond C s \<Longrightarrow> step R C s = Inr s' \<Longrightarrow> P s'"
    and "P s" and "after_passes k R C s = Inr s'"
  shows "P s'"
  using assms(2,3)
proof (induction k arbitrary: s)
  case 0
  then show ?case by simp
next
  case (Suc k)
  show ?case
  proof (cases "loop_cond C s")
    case True
    with Suc.prems(2) obtain s1 where s1: "step R C s = Inr s1" and rest: "after_passes k R C s1 = Inr s'"
      by (auto split: sum.splits)
    from pres [OF Suc.prems(1) True s1] have "P s1" .
    from Suc.IH [OF this rest] show ?thesis .
  next
    case False
    with Suc.prems show ?thesis by simp
  qed
qed

lemma run_after_passes:
  "run fuel R C s = Some (Inr s') \<Longrightarrow> after_passes fuel R C s = Inr s' \<and> \<not> loop_cond C s'"
proof (induction fuel arbitrary: s)
  case 0
  then show ?case by (simp split: if_splits)
next
  case (Suc fuel)
  show ?case
  proof (cases "loop_cond C s")
    case True
    with Suc.prems obtain s1 where "step R C s = Inr s1" "run fuel R C s1 = Some (Inr s')"
      by (auto split: sum.splits)
    with Suc.IH [of s1] True show ?thesis by simp
  next
    case False
    with Suc.prems show ?thesis by simp
  qed
qed

lemma simulate_after_passes:
  assumes "simulate fuel R C k0 = Some (Inr s)"
  obtains s0 where "init R C k0 = Inr s0" "after_passes fuel R C s0 = Inr s" "\<not> loop_cond C s"
  using assms run_after_passes by (auto simp: simulate_def split: sum.splits)

lemma servers_simulation_state:
  assumes "servers_simulation fuel R C k0 = Some (Inr (t, n, n_a, n_d, q, a, d))"
  obtains s where "simulate fuel R C k0 = Some (Inr s)" "n_d = st_n_d s" "n_a = st_n_a s"
    "t = st_t s" "q = st_q s" "a = st_a s" "d = st_d s" "n = cfg_n C"
proof (cases "simulate fuel R C k0")
  case None
  with assms show ?thesis by (simp add: servers_simulation_def)
next
  case (Some r)
  show ?thesis
  proof (cases r)
    case (Inl err)
    with Some assms show ?thesis by (simp add: servers_simulation_def)
  next
    case (Inr s)
    with Some assms that [of s] show ?thesis
      by (simp add: servers_simulation_def result_of_def)
  qed
qed

subsection \<open>The head of a station queue is the client in service\<close>

lemma in_service_append: "in_service (xs @ ys) i = in_service xs i @ in_service ys i"
  by (simp add: in_service_def)

lemma in_service_Cons:
  "in_service ((t, e, c, j) # evs) i =
     (if e \<noteq> ASIGNED \<and> j = i then [(t, e, c, j)] else []) @ in_service evs i"
  by (simp add: in_service_def)

lemma in_service_Nil: "in_service [] i = []"
  by (simp add: in_service_def)

lemma in_service_remove1_other:
  "\<not> (e \<noteq> ASIGNED \<and> j = i) \<Longrightarrow> in_service (remove1 (t, e, c, j) evs) i = in_service evs i"
  unfolding in_service_def filter_remove1
  by (rule remove1_idem) auto

lemma in_service_remove1_same:
  assumes "(t, e, c, i) \<in> set evs" "e \<noteq> ASIGNED"
    and "length (in_service evs i) \<le> 1"
  shows "in_service (remove1 (t, e, c, i) evs) i = [] \<and> in_service evs i = [(t, e, c, i)]"
proof -
  have mem: "(t, e, c, i) \<in> set (in_service evs i)"
    using assms(1,2) by (simp add: in_service_def)
  then obtain y where y: "in_service evs i = [y]"
    using assms(3) by (cases "in_service evs i") auto
  with mem have "y = (t, e, c, i)" by simp
  with y have "in_service evs i = [(t, e, c, i)]" by simp
  moreover have "in_service (remove1 (t, e, c, i) evs) i = remove1 (t, e, c, i) (in_service evs i)"
    by (simp add: in_service_def filter_remove1)
  ultimately show ?thesis by simp
qed

lemma heads_length: "length (heads qs i) \<le> 1"
  by (simp add: heads_def)

lemma heads_update:
  "heads (qs[j := x]) i = (if i = j \<and> j < length qs then take 1 x else heads qs i)"
  by (auto simp: heads_def)

lemma client_of_simp: "client_of (t, e, c, i) = c"
  by (simp add: client_of_def)

lemma take1_hd: "take (Suc 0) xs = (if xs = [] then [] else [hd xs])"
  by (cases xs) auto

lemma step_serving:
  assumes inv: "serving_inv s" and st: "step R C s = Inr s'" and ne: "st_events s \<noteq> []"
  shows "serving_inv s'"
proof -
  from st ne obtain t e c i where mem: "(t, e, c, i) \<in> set (st_events s)"
    and asg: "e = ASIGNED \<Longrightarrow> on_asigned R C (s\<lparr>st_t := t, st_events := remove1 (t, e, c, i) (st_events s)\<rparr>) c i = Inr s'"
    and arr: "e = ARRIVAL \<Longrightarrow> on_arrival R C (s\<lparr>st_t := t, st_events := remove1 (t, e, c, i) (st_events s)\<rparr>) c i = Inr s'"
    and fin: "e = FINISH \<Longrightarrow> on_finish R C (s\<lparr>st_t := t, st_events := remove1 (t, e, c, i) (st_events s)\<rparr>) c i = Inr s'"
    by (rule step_cases) blast
  let ?rest = "remove1 (t, e, c, i) (st_events s)"
  have old: "\<And>j. map client_of (in_service (st_events s) j) = heads (st_queue s) j"
    using inv by (simp add: serving_inv_def)
  have other: "\<And>j. j \<noteq> i \<Longrightarrow> in_service ?rest j = in_service (st_events s) j"
    by (rule in_service_remove1_other) simp
  have len1: "length (in_service (st_events s) i) \<le> 1"
    using old [of i] heads_length [of "st_queue s" i] by (metis length_map)
  show ?thesis
  proof (cases e)
    case ASIGNED
    have same: "\<And>j. in_service ?rest j = in_service (st_events s) j"
      using ASIGNED by (intro in_service_remove1_other) simp
    from asigned_dispatch [OF asg [OF ASIGNED]] obtain extra where
      i: "i < length (st_queue s)"
      and ev: "st_events s' = ?rest
         @ (if st_queue s ! i = [] then [(t, ARRIVAL, if i \<noteq> 0 then c else st_n_a s, i)] else [])
         @ extra"
      and ex: "extra = [] \<or> (i = 0 \<and> (\<exists>tt. extra = [(tt, ASIGNED, 0, 0)]))"
      and qu: "st_queue s' = (st_queue s)[i := st_queue s ! i @ [if i \<noteq> 0 then c else st_n_a s]]"
      by blast
    have exj: "\<And>j. in_service extra j = []"
      using ex by (auto simp: in_service_def)
    show ?thesis
      unfolding serving_inv_def
    proof
      fix j
      show "map client_of (in_service (st_events s') j) = heads (st_queue s') j"
      proof (cases "j = i")
        case True
        have "heads (st_queue s) i = take 1 (st_queue s ! i)" using i by (simp add: heads_def)
        with old [of i] have o: "map client_of (in_service (st_events s) i) = take 1 (st_queue s ! i)"
          by simp
        show ?thesis
          using o i True
          by (cases "st_queue s ! i")
             (simp_all add: ev qu in_service_append in_service_Cons in_service_Nil exj same heads_def client_of_simp)
      next
        case False
        then show ?thesis
          using old [of j] by (simp add: ev qu in_service_append in_service_Cons in_service_Nil exj same heads_update)
      qed
    qed
  next
    case ARRIVAL
    from in_service_remove1_same [OF mem _ len1] ARRIVAL
    have gone: "in_service ?rest i = []" and was: "in_service (st_events s) i = [(t, e, c, i)]"
      by auto
    from arrival_dispatch [OF arr [OF ARRIVAL]] obtain tt where
      ev: "st_events s' = ?rest @ [(tt, FINISH, c, i)]" and qu: "st_queue s' = st_queue s"
      by blast
    have hd_i: "heads (st_queue s) i = [c]"
      using old [of i] was by (simp add: client_of_simp)
    show ?thesis
      unfolding serving_inv_def
    proof
      fix j
      show "map client_of (in_service (st_events s') j) = heads (st_queue s') j"
      proof (cases "j = i")
        case True
        then show ?thesis
          by (simp add: ev qu in_service_append in_service_Cons in_service_Nil gone hd_i client_of_simp)
      next
        case False
        then show ?thesis
          using old [of j] by (simp add: ev qu in_service_append in_service_Cons in_service_Nil other)
      qed
    qed
  next
    case FINISH
    from in_service_remove1_same [OF mem _ len1] FINISH
    have gone: "in_service ?rest i = []"
      by auto
    from finish_dispatch [OF fin [OF FINISH]] obtain extra where
      i: "i < length (st_queue s)"
      and ev: "st_events s' = ?rest
         @ (if tl (st_queue s ! i) \<noteq> [] then [(t, ARRIVAL, hd (tl (st_queue s ! i)), i)] else [])
         @ extra"
      and ex: "if int i = cfg_n C - 1 then extra = [] else (\<exists>j. extra = [(t, ASIGNED, c, j)])"
      and qu: "st_queue s' = (st_queue s)[i := tl (st_queue s ! i)]"
      by blast
    have exj: "\<And>j. in_service extra j = []"
      using ex by (auto simp: in_service_def split: if_splits)
    show ?thesis
      unfolding serving_inv_def
    proof
      fix j
      show "map client_of (in_service (st_events s') j) = heads (st_queue s') j"
      proof (cases "j = i")
        case True
        then show ?thesis
          using i
          by (simp add: ev qu in_service_append in_service_Cons in_service_Nil exj gone heads_def client_of_simp take1_hd)
      next
        case False
        then show ?thesis
          using old [of j] by (simp add: ev qu in_service_append in_service_Cons in_service_Nil exj other heads_update)
      qed
    qed
  qed
qed

lemma init_serving: "init R C k0 = Inr s0 \<Longrightarrow> serving_inv s0"
  by (auto simp: init_def serving_inv_def in_service_def heads_def put_def split: sum.splits)

lemma after_passes_serving:
  "serving_inv s \<Longrightarrow> after_passes k R C s = Inr s' \<Longrightarrow> serving_inv s'"
proof (induction k arbitrary: s)
  case 0
  then show ?case by simp
next
  case (Suc k)
  show ?case
  proof (cases "loop_cond C s")
    case True
    with Suc.prems(2) obtain s1 where s1: "step R C s = Inr s1" and rest: "after_passes k R C s1 = Inr s'"
      by (auto split: sum.splits)
    from True have "st_events s \<noteq> []" by (simp add: loop_cond_def)
    from step_serving [OF Suc.prems(1) s1 this] have "serving_inv s1" .
    from Suc.IH [OF this rest] show ?thesis .
  next
    case False
    with Suc.prems show ?thesis by simp
  qed
qed

lemma finish_head:
  assumes "serving_inv s" "(t, FINISH, c, i) \<in> set (st_events s)"
  shows "i < length (st_queue s) \<and> st_queue s ! i \<noteq> [] \<and> hd (st_queue s ! i) = c"
proof -
  have "(t, FINISH, c, i) \<in> set (in_service (st_events s) i)"
    using assms(2) by (simp add: in_service_def)
  then have "client_of (t, FINISH, c, i) \<in> set (map client_of (in_service (st_events s) i))"
    by (simp only: set_map) (rule imageI)
  moreover have "map client_of (in_service (st_events s) i) = heads (st_queue s) i"
    using assms(1) by (simp add: serving_inv_def)
  ultimately have "c \<in> set (heads (st_queue s) i)"
    by (simp add: client_of_simp)
  then show ?thesis
    by (cases "st_queue s ! i") (auto simp: heads_def split: if_splits)
qed

text \<open>
  Claim C10. At every point of a run (the state after any number of passes from the
  initial state), when the entry that \<open>get\<close> hands to the loop body is
  \<open>Finish(c, i)\<close>, station \<open>i\<close> exists, its queue is not empty and its head is \<open>c\<close>;
  and in the state the pass leaves, the queue of station \<open>i\<close> is its tail and the
  other queues are unchanged: \<^verbatim>\<open>queue[i].pop(0)\<close> removed the client whose service
  ended, and nothing else.
\<close>

theorem finish_pops_its_client:
  assumes "init R C k0 = Inr s0" and "after_passes k R C s0 = Inr s"
    and "get (st_events s) = Some ((t, FINISH, c, i), rest)"
  shows "i < length (st_queue s) \<and> st_queue s ! i \<noteq> [] \<and> hd (st_queue s ! i) = c \<and>
     (\<forall>s'. step R C s = Inr s' \<longrightarrow> st_queue s' = (st_queue s)[i := tl (st_queue s ! i)])"
proof -
  have "serving_inv s"
    using assms(1,2) init_serving after_passes_serving by blast
  moreover have "(t, FINISH, c, i) \<in> set (st_events s)"
    using get_SomeD [OF assms(3)] by simp
  ultimately have pre: "i < length (st_queue s) \<and> st_queue s ! i \<noteq> [] \<and> hd (st_queue s ! i) = c"
    by (rule finish_head)
  have "st_queue s' = (st_queue s)[i := tl (st_queue s ! i)]" if st: "step R C s = Inr s'" for s'
  proof -
    from st assms(3) have "on_finish R C (s\<lparr>st_t := t, st_events := rest\<rparr>) c i = Inr s'"
      by (simp add: step_def)
    from finish_dispatch [OF this] show ?thesis by blast
  qed
  with pre show ?thesis by blast
qed

text \<open>
  An instance with two clients in the queue: after three passes of the fixed-horizon
  run the entry at hand is \<open>Finish(0, 0)\<close> at time 4, the queue of station 0 is
  \<open>[0, 1]\<close>, and the pass leaves \<open>[1]\<close>.
\<close>

theorem finish_pops_its_client_witness:
  "\<exists>s0 s s'. init unit_source short_horizon 0 = Inr s0 \<and>
     after_passes 3 unit_source short_horizon s0 = Inr s \<and>
     get (st_events s) = Some ((4, FINISH, 0, 0), []) \<and>
     step unit_source short_horizon s = Inr s' \<and>
     st_queue s = [[0, 1], []] \<and> hd (st_queue s ! 0) = 0 \<and> st_queue s' = [[1], []]"
proof -
  have "\<exists>s0 s s'. init unit_source short_horizon 0 = Inr s0 \<and>
     after_passes 3 unit_source short_horizon s0 = Inr s \<and>
     get (st_events s) = Some ((4, FINISH, 0, 0), []) \<and>
     step unit_source short_horizon s = Inr s' \<and> st_queue s = [[0, 1], []]"
    by (simp add: engine_defs unit_source_def short_horizon_def eval_nat_numeral)
  then obtain s0 s s' where h: "init unit_source short_horizon 0 = Inr s0"
      "after_passes 3 unit_source short_horizon s0 = Inr s"
      "get (st_events s) = Some ((4, FINISH, 0, 0), [])"
    and st: "step unit_source short_horizon s = Inr s'"
    and q: "st_queue s = [[0, 1], []]"
    by blast
  from finish_pops_its_client [OF h] st q
  have "hd (st_queue s ! 0) = 0" "st_queue s' = [[1], []]" by simp_all
  with h st q show ?thesis by blast
qed

subsection \<open>The three timestamp lists\<close>

lemma pending_append: "pending e c i (xs @ ys) = pending e c i xs + pending e c i ys"
  by (simp add: pending_def)

lemma pending_Cons:
  "pending e c i ((t, e', c', i') # evs) = (if (e', c', i') = (e, c, i) then 1 else 0) + pending e c i evs"
  by (simp add: pending_def)

lemma pending_Nil: "pending e c i [] = 0"
  by (simp add: pending_def)

lemma pending_remove1:
  assumes "(t, e', c', i') \<in> set evs"
  shows "pending e c i evs =
     pending e c i (remove1 (t, e', c', i') evs) + (if (e', c', i') = (e, c, i) then 1 else 0)"
proof (cases "(e', c', i') = (e, c, i)")
  case True
  let ?F = "filter (\<lambda>ev. snd ev = (e, c, i)) evs"
  have m: "(t, e', c', i') \<in> set ?F" using assms True by simp
  then have "0 < length ?F" by (rule length_pos_if_in_set)
  with m have "length (remove1 (t, e', c', i') ?F) + 1 = length ?F"
    by (simp only: length_remove1 if_True)
  then show ?thesis using True by (simp add: pending_def filter_remove1)
next
  case False
  then have "remove1 (t, e', c', i') (filter (\<lambda>ev. snd ev = (e, c, i)) evs)
      = filter (\<lambda>ev. snd ev = (e, c, i)) evs"
    by (intro remove1_idem) auto
  then show ?thesis using False by (simp add: pending_def filter_remove1)
qed

lemma length_record_stamp: "length (record_stamp x i c t) = length x"
  by (simp add: record_stamp_def)

lemma dict_get_record_stamp:
  assumes "j < length x"
  shows "length (dict_get (record_stamp x i c t ! j) c') =
     length (dict_get (x ! j) c') + (if j = i \<and> c' = c then 1 else 0)"
  using assms by (cases "j = i") (auto simp: record_stamp_def dict_get_def)

lemma waiting_append:
  assumes "i < length qs"
  shows "waiting (qs[i := qs ! i @ [x]]) c j =
     waiting qs c j + (if j = i \<and> qs ! i \<noteq> [] \<and> x = c then 1 else 0)"
  using assms by (cases "qs ! i") (auto simp: waiting_def nth_list_update)

lemma waiting_tl:
  assumes "i < length qs"
  shows "waiting qs c j =
     waiting (qs[i := tl (qs ! i)]) c j
       + (if j = i \<and> tl (qs ! i) \<noteq> [] \<and> hd (tl (qs ! i)) = c then 1 else 0)"
  using assms by (cases "tl (qs ! i)") (auto simp: waiting_def nth_list_update)

lemma init_stamps: "init R C k0 = Inr s0 \<Longrightarrow> stamps_inv s0"
  by (auto simp: init_def stamps_inv_def pending_def waiting_def dict_get_def put_def split: sum.splits)

lemma step_stamps:
  assumes inv: "stamps_inv s" and ne: "st_events s \<noteq> []" and st: "step R C s = Inr s'"
  shows "stamps_inv s'"
proof -
  from st ne obtain t e c i where mem: "(t, e, c, i) \<in> set (st_events s)"
    and asg: "e = ASIGNED \<Longrightarrow> on_asigned R C (s\<lparr>st_t := t, st_events := remove1 (t, e, c, i) (st_events s)\<rparr>) c i = Inr s'"
    and arr: "e = ARRIVAL \<Longrightarrow> on_arrival R C (s\<lparr>st_t := t, st_events := remove1 (t, e, c, i) (st_events s)\<rparr>) c i = Inr s'"
    and fin: "e = FINISH \<Longrightarrow> on_finish R C (s\<lparr>st_t := t, st_events := remove1 (t, e, c, i) (st_events s)\<rparr>) c i = Inr s'"
    by (rule step_cases) blast
  let ?rest = "remove1 (t, e, c, i) (st_events s)"
  have la: "length (st_a s) = length (st_queue s)" and lq: "length (st_q s) = length (st_queue s)"
    and ld: "length (st_d s) = length (st_queue s)"
    using inv by (simp_all add: stamps_inv_def)
  have old1: "\<And>j c'. j < length (st_queue s) \<Longrightarrow>
      length (dict_get (st_d s ! j) c') + pending FINISH c' j (st_events s)
        = length (dict_get (st_a s ! j) c')"
    using inv by (simp add: stamps_inv_def)
  have old2: "\<And>j c'. j < length (st_queue s) \<Longrightarrow>
      length (dict_get (st_a s ! j) c') + pending ARRIVAL c' j (st_events s)
          + waiting (st_queue s) c' j
        = length (dict_get (st_q s ! j) c')"
    using inv by (simp add: stamps_inv_def)
  note rem = pending_remove1 [OF mem]
  show ?thesis
  proof (cases e)
    case ASIGNED
    define idx where "idx = (if i \<noteq> 0 then c else st_n_a s)"
    from asigned_dispatch [OF asg [OF ASIGNED]] obtain extra where
      i: "i < length (st_queue s)"
      and ev: "st_events s' = ?rest
         @ (if st_queue s ! i = [] then [(t, ARRIVAL, idx, i)] else [])
         @ extra"
      and ex: "extra = [] \<or> (i = 0 \<and> (\<exists>tt. extra = [(tt, ASIGNED, 0, 0)]))"
      and qu: "st_queue s' = (st_queue s)[i := st_queue s ! i @ [idx]]"
      and q': "st_q s' = record_stamp (st_q s) i idx t"
      and a': "st_a s' = st_a s" and d': "st_d s' = st_d s"
      unfolding idx_def by blast
    have exF: "\<And>c' j. pending FINISH c' j extra = 0" and exA: "\<And>c' j. pending ARRIVAL c' j extra = 0"
      using ex by (auto simp: pending_def)
    show ?thesis
      unfolding stamps_inv_def
    proof (intro conjI allI impI)
      fix j c' assume "j < length (st_queue s')"
      then have j: "j < length (st_queue s)" by (simp add: qu)
      show "length (dict_get (st_d s' ! j) c') + pending FINISH c' j (st_events s')
          = length (dict_get (st_a s' ! j) c')"
        using old1 [OF j, of c'] rem [of FINISH c' j] ASIGNED
        by (simp add: ev a' d' pending_append pending_Cons pending_Nil exF)
      show "length (dict_get (st_a s' ! j) c') + pending ARRIVAL c' j (st_events s')
            + waiting (st_queue s') c' j
          = length (dict_get (st_q s' ! j) c')"
        using old2 [OF j, of c'] rem [of ARRIVAL c' j] ASIGNED j i lq
        by (auto simp add: ev a' q' qu pending_append pending_Cons pending_Nil exA
            waiting_append dict_get_record_stamp)
    qed (simp_all add: qu q' a' d' la lq ld length_record_stamp)
  next
    case ARRIVAL
    from arrival_dispatch [OF arr [OF ARRIVAL]] obtain tt where
      i: "i < length (st_a s)"
      and ev: "st_events s' = ?rest @ [(tt, FINISH, c, i)]" and qu: "st_queue s' = st_queue s"
      and a': "st_a s' = record_stamp (st_a s) i c t"
      and q': "st_q s' = st_q s" and d': "st_d s' = st_d s"
      by blast
    show ?thesis
      unfolding stamps_inv_def
    proof (intro conjI allI impI)
      fix j c' assume "j < length (st_queue s')"
      then have j: "j < length (st_queue s)" by (simp add: qu)
      show "length (dict_get (st_d s' ! j) c') + pending FINISH c' j (st_events s')
          = length (dict_get (st_a s' ! j) c')"
        using old1 [OF j, of c'] rem [of FINISH c' j] ARRIVAL j la
        by (auto simp add: ev a' d' pending_append pending_Cons pending_Nil dict_get_record_stamp)
      show "length (dict_get (st_a s' ! j) c') + pending ARRIVAL c' j (st_events s')
            + waiting (st_queue s') c' j
          = length (dict_get (st_q s' ! j) c')"
        using old2 [OF j, of c'] rem [of ARRIVAL c' j] ARRIVAL j la
        by (auto simp add: ev a' q' qu pending_append pending_Cons pending_Nil dict_get_record_stamp)
    qed (simp_all add: qu q' a' d' la lq ld length_record_stamp)
  next
    case FINISH
    from finish_dispatch [OF fin [OF FINISH]] obtain extra where
      i: "i < length (st_queue s)"
      and ev: "st_events s' = ?rest
         @ (if tl (st_queue s ! i) \<noteq> [] then [(t, ARRIVAL, hd (tl (st_queue s ! i)), i)] else [])
         @ extra"
      and ex: "if int i = cfg_n C - 1 then extra = [] else (\<exists>j. extra = [(t, ASIGNED, c, j)])"
      and qu: "st_queue s' = (st_queue s)[i := tl (st_queue s ! i)]"
      and d': "st_d s' = record_stamp (st_d s) i c t"
      and q': "st_q s' = st_q s" and a': "st_a s' = st_a s"
      by blast
    have exF: "\<And>c' j. pending FINISH c' j extra = 0" and exA: "\<And>c' j. pending ARRIVAL c' j extra = 0"
      using ex by (auto simp: pending_def split: if_splits)
    show ?thesis
      unfolding stamps_inv_def
    proof (intro conjI allI impI)
      fix j c' assume "j < length (st_queue s')"
      then have j: "j < length (st_queue s)" by (simp add: qu)
      show "length (dict_get (st_d s' ! j) c') + pending FINISH c' j (st_events s')
          = length (dict_get (st_a s' ! j) c')"
        using old1 [OF j, of c'] rem [of FINISH c' j] FINISH j ld
        by (auto simp add: ev a' d' pending_append pending_Cons pending_Nil exF dict_get_record_stamp)
      show "length (dict_get (st_a s' ! j) c') + pending ARRIVAL c' j (st_events s')
            + waiting (st_queue s') c' j
          = length (dict_get (st_q s' ! j) c')"
        using old2 [OF j, of c'] rem [of ARRIVAL c' j] FINISH j i waiting_tl [OF i, of c' j]
        by (auto simp add: ev a' q' qu pending_append pending_Cons pending_Nil exA)
    qed (simp_all add: qu q' a' d' la lq ld length_record_stamp)
  qed
qed

lemma passes_stamps:
  assumes "init R C k0 = Inr s0" "after_passes k R C s0 = Inr s"
  shows "stamps_inv s"
proof (rule after_passes_invariant [where P = stamps_inv, OF _ _ assms(2)])
  show "stamps_inv s0" using assms(1) by (rule init_stamps)
next
  fix s s' assume "stamps_inv s" "loop_cond C s" "step R C s = Inr s'"
  then show "stamps_inv s'"
    using step_stamps [of s R C s'] by (simp add: loop_cond_def)
qed

text \<open>
  The trace lists keep the \<open>n\<close> entries they start with.
\<close>

lemma trace_lengths:
  assumes "simulate fuel R C k0 = Some (Inr s)"
  shows "length (st_q s) = nat (cfg_n C) \<and> length (st_a s) = nat (cfg_n C) \<and>
     length (st_d s) = nat (cfg_n C)"
proof -
  from assms obtain s0 where i: "init R C k0 = Inr s0" and p: "after_passes fuel R C s0 = Inr s"
    by (rule simulate_after_passes)
  have "length (st_queue s) = nat (cfg_n C)"
  proof (rule after_passes_invariant [where P = "\<lambda>s. length (st_queue s) = nat (cfg_n C)", OF _ _ p])
    show "length (st_queue s0) = nat (cfg_n C)"
      using i by (auto simp: init_def split: sum.splits)
  next
    fix s s' assume "length (st_queue s) = nat (cfg_n C)" "loop_cond C s" "step R C s = Inr s'"
    then show "length (st_queue s') = nat (cfg_n C)"
      using step_queue_length [of R C s s'] by (simp add: loop_cond_def)
  qed
  with passes_stamps [OF i p] show ?thesis by (simp add: stamps_inv_def)
qed

text \<open>
  Claim C6. At every point of a run (after any number of passes, and at loop exit),
  for every station of the trace and every client: there are no more departure stamps
  than service-start stamps, and no more service-start stamps than queue-entry stamps.
\<close>

theorem stamp_lists_nested:
  assumes "init R C k0 = Inr s0"
    and "after_passes k R C s0 = Inr s \<or> run k R C s0 = Some (Inr s)"
    and "i < length (st_q s)"
  shows "length (dict_get (st_d s ! i) c) \<le> length (dict_get (st_a s ! i) c) \<and>
         length (dict_get (st_a s ! i) c) \<le> length (dict_get (st_q s ! i) c)"
proof -
  from assms(2) have "after_passes k R C s0 = Inr s"
    using run_after_passes by blast
  from passes_stamps [OF assms(1) this] have inv: "stamps_inv s" .
  then have "i < length (st_queue s)" using assms(3) by (simp add: stamps_inv_def)
  with inv have
    "length (dict_get (st_d s ! i) c) + pending FINISH c i (st_events s)
        = length (dict_get (st_a s ! i) c)"
    "length (dict_get (st_a s ! i) c) + pending ARRIVAL c i (st_events s)
          + waiting (st_queue s) c i
        = length (dict_get (st_q s ! i) c)"
    by (simp_all add: stamps_inv_def)
  then show ?thesis by linarith
qed

theorem stamp_lists_nested_witness:
  "\<exists>s0 s. init unit_source tandem2 0 = Inr s0 \<and>
     after_passes 5 unit_source tandem2 s0 = Inr s \<and> 1 < length (st_q s) \<and>
     dict_get (st_q s ! 1) 0 = [2] \<and> dict_get (st_a s ! 1) 0 = [2] \<and> dict_get (st_d s ! 1) 0 = [] \<and>
     length (dict_get (st_d s ! 1) 0) \<le> length (dict_get (st_a s ! 1) 0) \<and>
     length (dict_get (st_a s ! 1) 0) \<le> length (dict_get (st_q s ! 1) 0)"
proof -
  have "\<exists>s0 s. init unit_source tandem2 0 = Inr s0 \<and>
     after_passes 5 unit_source tandem2 s0 = Inr s \<and> 1 < length (st_q s) \<and>
     dict_get (st_q s ! 1) 0 = [2] \<and> dict_get (st_a s ! 1) 0 = [2] \<and> dict_get (st_d s ! 1) 0 = []"
    by (simp add: engine_defs unit_source_def tandem2_def eval_nat_numeral)
  then obtain s0 s where h: "init unit_source tandem2 0 = Inr s0"
      "after_passes 5 unit_source tandem2 s0 = Inr s" "1 < length (st_q s)"
    and v: "dict_get (st_q s ! 1) 0 = [2]" "dict_get (st_a s ! 1) 0 = [2]" "dict_get (st_d s ! 1) 0 = []"
    by blast
  from stamp_lists_nested [OF h(1) disjI1 [OF h(2)] h(3), of 0] h v show ?thesis by blast
qed

subsection \<open>Departures and arrivals\<close>

lemma in_transit_append: "in_transit (xs @ ys) = in_transit xs + in_transit ys"
  by (simp add: in_transit_def)

lemma in_transit_Cons:
  "in_transit ((t, e, c, i) # evs) = (if e = ASIGNED \<and> i \<noteq> 0 then 1 else 0) + in_transit evs"
  by (simp add: in_transit_def)

lemma in_transit_Nil: "in_transit [] = 0"
  by (simp add: in_transit_def)

lemma in_transit_remove1:
  assumes "(t, e, c, i) \<in> set evs"
  shows "in_transit evs =
     in_transit (remove1 (t, e, c, i) evs) + (if e = ASIGNED \<and> i \<noteq> 0 then 1 else 0)"
proof (cases "e = ASIGNED \<and> i \<noteq> 0")
  case True
  let ?F = "filter (\<lambda>ev. fst (snd ev) = ASIGNED \<and> snd (snd (snd ev)) \<noteq> 0) evs"
  have m: "(t, e, c, i) \<in> set ?F" using assms True by simp
  then have "0 < length ?F" by (rule length_pos_if_in_set)
  with m have "length (remove1 (t, e, c, i) ?F) + 1 = length ?F"
    by (simp only: length_remove1 if_True)
  then show ?thesis using True by (simp add: in_transit_def filter_remove1)
next
  case False
  then have "remove1 (t, e, c, i) (filter (\<lambda>ev. fst (snd ev) = ASIGNED \<and> snd (snd (snd ev)) \<noteq> 0) evs)
      = filter (\<lambda>ev. fst (snd ev) = ASIGNED \<and> snd (snd (snd ev)) \<noteq> 0) evs"
    by (intro remove1_idem) auto
  then show ?thesis using False by (simp add: in_transit_def filter_remove1)
qed

lemma in_queues_update:
  "i < length qs \<Longrightarrow> in_queues (qs[i := x]) + length (qs ! i) = in_queues qs + length x"
proof (induction qs arbitrary: i)
  case Nil
  then show ?case by simp
next
  case (Cons q qs)
  show ?case
  proof (cases i)
    case 0
    then show ?thesis by (simp add: in_queues_def)
  next
    case (Suc k)
    with Cons.prems have "k < length qs" by simp
    from Cons.IH [OF this] Suc show ?thesis by (simp add: in_queues_def)
  qed
qed

text \<open>
  One pass moves clients between the counters; the only way a client leaves the count
  without departing is a Finish routed back to station 0.
\<close>

lemma step_inside:
  assumes sv: "serving_inv s" and ne: "st_events s \<noteq> []" and st: "step R C s = Inr s'"
  shows "\<exists>b. inside s' + b + st_n_a s = inside s + st_n_a s' \<and>
     (b = 0 \<or> (b = 1 \<and> (\<exists>i k'. int i \<noteq> cfg_n C - 1 \<and> next_server R C (st_rng s) i = Inr (0, k'))))"
proof -
  from st ne obtain t e c i where mem: "(t, e, c, i) \<in> set (st_events s)"
    and asg: "e = ASIGNED \<Longrightarrow> on_asigned R C (s\<lparr>st_t := t, st_events := remove1 (t, e, c, i) (st_events s)\<rparr>) c i = Inr s'"
    and arr: "e = ARRIVAL \<Longrightarrow> on_arrival R C (s\<lparr>st_t := t, st_events := remove1 (t, e, c, i) (st_events s)\<rparr>) c i = Inr s'"
    and fin: "e = FINISH \<Longrightarrow> on_finish R C (s\<lparr>st_t := t, st_events := remove1 (t, e, c, i) (st_events s)\<rparr>) c i = Inr s'"
    by (rule step_cases) blast
  let ?rest = "remove1 (t, e, c, i) (st_events s)"
  note rem = in_transit_remove1 [OF mem]
  show ?thesis
  proof (cases e)
    case ASIGNED
    define idx where "idx = (if i \<noteq> 0 then c else st_n_a s)"
    from asigned_dispatch [OF asg [OF ASIGNED]] obtain extra where
      i: "i < length (st_queue s)"
      and ev: "st_events s' = ?rest
         @ (if st_queue s ! i = [] then [(t, ARRIVAL, idx, i)] else [])
         @ extra"
      and ex: "extra = [] \<or> (i = 0 \<and> (\<exists>tt. extra = [(tt, ASIGNED, 0, 0)]))"
      and qu: "st_queue s' = (st_queue s)[i := st_queue s ! i @ [idx]]"
      and na: "st_n_a s' = st_n_a s + (if i = 0 then 1 else 0)" and nd: "st_n_d s' = st_n_d s"
      unfolding idx_def by blast
    have ext: "in_transit extra = 0"
      using ex by (auto simp: in_transit_def)
    have "in_queues (st_queue s') = in_queues (st_queue s) + 1"
      using in_queues_update [OF i, of "st_queue s ! i @ [idx]"] by (simp add: qu)
    then have "inside s' + 0 + st_n_a s = inside s + st_n_a s'"
      using rem ASIGNED
      by (simp add: inside_def ev na nd in_transit_append in_transit_Cons in_transit_Nil ext)
    then show ?thesis by blast
  next
    case ARRIVAL
    from arrival_dispatch [OF arr [OF ARRIVAL]] obtain tt where
      ev: "st_events s' = ?rest @ [(tt, FINISH, c, i)]" and qu: "st_queue s' = st_queue s"
      and na: "st_n_a s' = st_n_a s" and nd: "st_n_d s' = st_n_d s"
      by blast
    have "inside s' + 0 + st_n_a s = inside s + st_n_a s'"
      using rem ARRIVAL
      by (simp add: inside_def ev qu na nd in_transit_append in_transit_Cons in_transit_Nil)
    then show ?thesis by blast
  next
    case FINISH
    from finish_head [OF sv] mem FINISH
    have i: "i < length (st_queue s)" and nonempty: "st_queue s ! i \<noteq> []"
      by auto
    from finish_dispatch [OF fin [OF FINISH]] obtain extra where
      ev: "st_events s' = ?rest
         @ (if tl (st_queue s ! i) \<noteq> [] then [(t, ARRIVAL, hd (tl (st_queue s ! i)), i)] else [])
         @ extra"
      and ex: "if int i = cfg_n C - 1 then extra = [] else (\<exists>j. extra = [(t, ASIGNED, c, j)])"
      and qu: "st_queue s' = (st_queue s)[i := tl (st_queue s ! i)]"
      and na: "st_n_a s' = st_n_a s"
      and nd: "st_n_d s' = st_n_d s + (if int i = cfg_n C - 1 then 1 else 0)"
      by blast
    from nonempty obtain x xs where "st_queue s ! i = x # xs"
      by (cases "st_queue s ! i") auto
    then have iq: "in_queues (st_queue s') + 1 = in_queues (st_queue s)"
      using in_queues_update [OF i, of "tl (st_queue s ! i)"] by (simp add: qu)
    show ?thesis
    proof (cases "int i = cfg_n C - 1")
      case True
      with ex have "extra = []" by simp
      then have "inside s' + 0 + st_n_a s = inside s + st_n_a s'"
        using rem FINISH iq True
        by (simp add: inside_def ev na nd in_transit_append in_transit_Cons in_transit_Nil)
      then show ?thesis by blast
    next
      case False
      from finish_routing [OF fin [OF FINISH] False] obtain j k' where
        ns: "next_server R C (st_rng s) i = Inr (j, k')"
        and ev2: "st_events s' = ?rest
         @ (if tl (st_queue s ! i) \<noteq> [] then [(t, ARRIVAL, hd (tl (st_queue s ! i)), i)] else [])
         @ [(t, ASIGNED, c, j)]"
        by auto
      show ?thesis
      proof (cases "j = 0")
        case True
        have "inside s' + 1 + st_n_a s = inside s + st_n_a s'"
          using rem FINISH iq False True
          by (simp add: inside_def ev2 na nd in_transit_append in_transit_Cons in_transit_Nil)
        moreover have "\<exists>i k'. int i \<noteq> cfg_n C - 1 \<and> next_server R C (st_rng s) i = Inr (0, k')"
          using ns True False by blast
        ultimately show ?thesis by blast
      next
        case nz: False
        have "inside s' + 0 + st_n_a s = inside s + st_n_a s'"
          using rem FINISH iq False nz
          by (simp add: inside_def ev2 na nd in_transit_append in_transit_Cons in_transit_Nil)
        then show ?thesis by blast
      qed
    qed
  qed
qed

lemma init_inside: "init R C k0 = Inr s0 \<Longrightarrow> inside s0 = st_n_a s0"
  by (auto simp: init_def inside_def in_queues_def in_transit_def put_def split: sum.splits)

lemma empty_queues:
  assumes "serving_inv s" "st_events s = []"
  shows "in_queues (st_queue s) = 0"
proof -
  have "\<And>i. i < length (st_queue s) \<Longrightarrow> st_queue s ! i = []"
  proof -
    fix i assume i: "i < length (st_queue s)"
    have "heads (st_queue s) i = []"
      using assms by (simp add: serving_inv_def in_service_def)
    with i show "st_queue s ! i = []" by (cases "st_queue s ! i") (simp_all add: heads_def)
  qed
  then have "\<forall>x \<in> set (st_queue s). x = []"
    by (auto simp: in_set_conv_nth)
  then show ?thesis by (simp add: in_queues_def)
qed

lemma next_server_forward:
  assumes "\<forall>x \<in> set (cfg_p C). x = 0" "\<forall>k. 0 < unif R k" "next_server R C k i = Inr (j, k')"
  shows "j = i + 1"
proof (cases "i = 0 \<or> \<not> i < length (cfg_p C)")
  case True
  with assms(3) show ?thesis by (auto simp: next_server_def split: if_splits)
next
  case False
  then have "cfg_p C ! i \<in> set (cfg_p C)" by simp
  with assms(1) have "cfg_p C ! i = 0" by blast
  with assms(2) have "unif R k > cfg_p C ! i" by simp
  with assms(3) False show ?thesis by (simp add: next_server_def)
qed

lemma passes_le:
  assumes "init R C k0 = Inr s0" "after_passes k R C s0 = Inr s"
  shows "serving_inv s \<and> inside s \<le> st_n_a s"
proof (rule after_passes_invariant [where P = "\<lambda>s. serving_inv s \<and> inside s \<le> st_n_a s", OF _ _ assms(2)])
  show "serving_inv s0 \<and> inside s0 \<le> st_n_a s0"
    using init_serving [OF assms(1)] init_inside [OF assms(1)] by simp
next
  fix s s' assume P: "serving_inv s \<and> inside s \<le> st_n_a s" and lc: "loop_cond C s"
    and st: "step R C s = Inr s'"
  from lc have ne: "st_events s \<noteq> []" by (simp add: loop_cond_def)
  from step_inside [OF _ ne st] P obtain b where "inside s' + b + st_n_a s = inside s + st_n_a s'"
    by blast
  with P have "inside s' \<le> st_n_a s'" by linarith
  with step_serving [OF _ st ne] P show "serving_inv s' \<and> inside s' \<le> st_n_a s'" by simp
qed

lemma passes_eq:
  assumes fwd: "\<forall>x \<in> set (cfg_p C). x = 0" "\<forall>k. 0 < unif R k"
    and "init R C k0 = Inr s0" "after_passes k R C s0 = Inr s"
  shows "serving_inv s \<and> inside s = st_n_a s"
proof (rule after_passes_invariant [where P = "\<lambda>s. serving_inv s \<and> inside s = st_n_a s", OF _ _ assms(4)])
  show "serving_inv s0 \<and> inside s0 = st_n_a s0"
    using init_serving [OF assms(3)] init_inside [OF assms(3)] by simp
next
  fix s s' assume P: "serving_inv s \<and> inside s = st_n_a s" and lc: "loop_cond C s"
    and st: "step R C s = Inr s'"
  from lc have ne: "st_events s \<noteq> []" by (simp add: loop_cond_def)
  from step_inside [OF _ ne st] P obtain b where
    b: "inside s' + b + st_n_a s = inside s + st_n_a s'"
    and c: "b = 0 \<or> (b = 1 \<and> (\<exists>i k'. int i \<noteq> cfg_n C - 1 \<and> next_server R C (st_rng s) i = Inr (0, k')))"
    by blast
  have "b = 0"
    using c next_server_forward [OF fwd] by fastforce
  with b P have "inside s' = st_n_a s'" by simp
  with step_serving [OF _ st ne] P show "serving_inv s' \<and> inside s' = st_n_a s'" by simp
qed

text \<open>
  Every pass changes the number of clients inside and the arrival counter by the same
  amount, except a pass that sends a client back to station 0: it takes the client out
  of the network, and the arrival counter counts it again when it is admitted.
\<close>

lemma step_sent_back:
  assumes sv: "serving_inv s" and ne: "st_events s \<noteq> []" and st: "step R C s = Inr s'"
  shows "inside s' + sent_back_to_0 R C s + st_n_a s = inside s + st_n_a s'"
proof -
  from st ne obtain t e c i where mem: "(t, e, c, i) \<in> set (st_events s)"
    and g: "get (st_events s) = Some ((t, e, c, i), remove1 (t, e, c, i) (st_events s))"
    and asg: "e = ASIGNED \<Longrightarrow> on_asigned R C (s\<lparr>st_t := t, st_events := remove1 (t, e, c, i) (st_events s)\<rparr>) c i = Inr s'"
    and arr: "e = ARRIVAL \<Longrightarrow> on_arrival R C (s\<lparr>st_t := t, st_events := remove1 (t, e, c, i) (st_events s)\<rparr>) c i = Inr s'"
    and fin: "e = FINISH \<Longrightarrow> on_finish R C (s\<lparr>st_t := t, st_events := remove1 (t, e, c, i) (st_events s)\<rparr>) c i = Inr s'"
    by (rule step_cases) blast
  let ?rest = "remove1 (t, e, c, i) (st_events s)"
  note rem = in_transit_remove1 [OF mem]
  show ?thesis
  proof (cases e)
    case ASIGNED
    define idx where "idx = (if i \<noteq> 0 then c else st_n_a s)"
    from asigned_dispatch [OF asg [OF ASIGNED]] obtain extra where
      i: "i < length (st_queue s)"
      and ev: "st_events s' = ?rest
         @ (if st_queue s ! i = [] then [(t, ARRIVAL, idx, i)] else [])
         @ extra"
      and ex: "extra = [] \<or> (i = 0 \<and> (\<exists>tt. extra = [(tt, ASIGNED, 0, 0)]))"
      and qu: "st_queue s' = (st_queue s)[i := st_queue s ! i @ [idx]]"
      and na: "st_n_a s' = st_n_a s + (if i = 0 then 1 else 0)" and nd: "st_n_d s' = st_n_d s"
      unfolding idx_def by blast
    have sb: "sent_back_to_0 R C s = 0"
      using g ASIGNED by (simp add: sent_back_to_0_def)
    have ext: "in_transit extra = 0"
      using ex by (auto simp: in_transit_def)
    have "in_queues (st_queue s') = in_queues (st_queue s) + 1"
      using in_queues_update [OF i, of "st_queue s ! i @ [idx]"] by (simp add: qu)
    then show ?thesis
      using rem ASIGNED
      by (simp add: sb inside_def ev na nd in_transit_append in_transit_Cons in_transit_Nil ext)
  next
    case ARRIVAL
    from arrival_dispatch [OF arr [OF ARRIVAL]] obtain tt where
      ev: "st_events s' = ?rest @ [(tt, FINISH, c, i)]" and qu: "st_queue s' = st_queue s"
      and na: "st_n_a s' = st_n_a s" and nd: "st_n_d s' = st_n_d s"
      by blast
    have sb: "sent_back_to_0 R C s = 0"
      using g ARRIVAL by (simp add: sent_back_to_0_def)
    show ?thesis
      using rem ARRIVAL
      by (simp add: sb inside_def ev qu na nd in_transit_append in_transit_Cons in_transit_Nil)
  next
    case FINISH
    from finish_head [OF sv] mem FINISH
    have i: "i < length (st_queue s)" and nonempty: "st_queue s ! i \<noteq> []"
      by auto
    from finish_dispatch [OF fin [OF FINISH]] obtain extra where
      ev: "st_events s' = ?rest
         @ (if tl (st_queue s ! i) \<noteq> [] then [(t, ARRIVAL, hd (tl (st_queue s ! i)), i)] else [])
         @ extra"
      and ex: "if int i = cfg_n C - 1 then extra = [] else (\<exists>j. extra = [(t, ASIGNED, c, j)])"
      and qu: "st_queue s' = (st_queue s)[i := tl (st_queue s ! i)]"
      and na: "st_n_a s' = st_n_a s"
      and nd: "st_n_d s' = st_n_d s + (if int i = cfg_n C - 1 then 1 else 0)"
      by blast
    from nonempty obtain x xs where "st_queue s ! i = x # xs"
      by (cases "st_queue s ! i") auto
    then have iq: "in_queues (st_queue s') + 1 = in_queues (st_queue s)"
      using in_queues_update [OF i, of "tl (st_queue s ! i)"] by (simp add: qu)
    show ?thesis
    proof (cases "int i = cfg_n C - 1")
      case True
      have sb: "sent_back_to_0 R C s = 0"
        using g FINISH True by (simp add: sent_back_to_0_def)
      from True ex have "extra = []" by simp
      then show ?thesis
        using rem FINISH iq True
        by (simp add: sb inside_def ev na nd in_transit_append in_transit_Cons in_transit_Nil)
    next
      case False
      from finish_routing [OF fin [OF FINISH] False] obtain j k' where
        ns: "next_server R C (st_rng s) i = Inr (j, k')"
        and ev2: "st_events s' = ?rest
         @ (if tl (st_queue s ! i) \<noteq> [] then [(t, ARRIVAL, hd (tl (st_queue s ! i)), i)] else [])
         @ [(t, ASIGNED, c, j)]"
        by auto
      have sb: "sent_back_to_0 R C s = (if j = 0 then 1 else 0)"
        using g FINISH False ns by (simp add: sent_back_to_0_def)
      show ?thesis
      proof (cases "j = 0")
        case True
        show ?thesis
          using rem FINISH iq False True
          by (simp add: sb inside_def ev2 na nd in_transit_append in_transit_Cons in_transit_Nil)
      next
        case nz: False
        show ?thesis
          using rem FINISH iq False nz
          by (simp add: sb inside_def ev2 na nd in_transit_append in_transit_Cons in_transit_Nil)
      qed
    qed
  qed
qed

lemma after_passes_returns:
  assumes "after_passes k R C s = Inr s'" "serving_inv s"
  shows "inside s' + returns_to_0 k R C s + st_n_a s = inside s + st_n_a s'"
  using assms
proof (induction k arbitrary: s)
  case 0
  then show ?case by simp
next
  case (Suc k)
  show ?case
  proof (cases "loop_cond C s")
    case False
    with Suc.prems show ?thesis by simp
  next
    case True
    then have ne: "st_events s \<noteq> []" by (simp add: loop_cond_def)
    from Suc.prems(1) True obtain s1 where st: "step R C s = Inr s1"
      and ap: "after_passes k R C s1 = Inr s'"
      by (cases "step R C s") simp_all
    have sv1: "serving_inv s1" using step_serving [OF Suc.prems(2) st ne] .
    from Suc.IH [OF ap sv1]
    have a: "inside s' + returns_to_0 k R C s1 + st_n_a s1 = inside s1 + st_n_a s'" .
    from step_sent_back [OF Suc.prems(2) ne st]
    have b: "inside s1 + sent_back_to_0 R C s + st_n_a s = inside s + st_n_a s1" .
    have r: "returns_to_0 (Suc k) R C s = sent_back_to_0 R C s + returns_to_0 k R C s1"
      using True st by simp
    from a b show ?thesis unfolding r by linarith
  qed
qed

text \<open>
  What holds of every run. A run that returns has at most as many departures as
  arrivals. When it was drained to completion, every feedback probability is zero
  and every routing draw is positive, departures equal arrivals.
\<close>

lemma departures_and_arrivals:
  assumes "servers_simulation fuel R C k0 = Some (Inr (t, n, n_a, n_d, q, a, d))"
  shows "n_d \<le> n_a \<and>
     (cfg_finish C \<and> (\<forall>x \<in> set (cfg_p C). x = 0) \<and> (\<forall>k. 0 < unif R k) \<longrightarrow> n_d = n_a)"
proof -
  from assms obtain s where sim: "simulate fuel R C k0 = Some (Inr s)"
    and nd: "n_d = st_n_d s" and na: "n_a = st_n_a s"
    by (rule servers_simulation_state)
  from sim obtain s0 where i: "init R C k0 = Inr s0" and p: "after_passes fuel R C s0 = Inr s"
    and stop: "\<not> loop_cond C s"
    by (rule simulate_after_passes)
  have "inside s \<le> st_n_a s" using passes_le [OF i p] by simp
  then have le: "n_d \<le> n_a" by (simp add: inside_def nd na)
  have "n_d = n_a" if "cfg_finish C" and fwd: "\<forall>x \<in> set (cfg_p C). x = 0" "\<forall>k. 0 < unif R k"
  proof -
    from stop that(1) have ev: "st_events s = []" by (simp add: loop_cond_def)
    from passes_eq [OF fwd i p] have sv: "serving_inv s" and eq: "inside s = st_n_a s" by simp_all
    from empty_queues [OF sv ev] ev eq show ?thesis
      by (simp add: inside_def in_transit_def nd na)
  qed
  with le show ?thesis by blast
qed

lemma departures_and_arrivals_example:
  "\<exists>t n q a d. servers_simulation 20 unit_source tandem3 0 = Some (Inr (t, n, 1, 1, q, a, d)) \<and>
     cfg_finish tandem3 \<and> cfg_p tandem3 = [0, 0, 0] \<and> (\<forall>k. 0 < unif unit_source k)"
proof -
  have run: "\<exists>t n n_a n_d q a d.
      servers_simulation 20 unit_source tandem3 0 = Some (Inr (t, n, n_a, n_d, q, a, d)) \<and> n_a = 1"
    by (simp add: servers_simulation_def simulate_def result_of_def engine_defs unit_source_def
        tandem3_def eval_nat_numeral)
  then obtain t n n_a n_d q a d where
    r: "servers_simulation 20 unit_source tandem3 0 = Some (Inr (t, n, n_a, n_d, q, a, d))"
    and na: "n_a = 1"
    by blast
  have h: "cfg_finish tandem3 \<and> (\<forall>x \<in> set (cfg_p tandem3). x = 0) \<and> (\<forall>k. 0 < unif unit_source k)"
    by (simp add: tandem3_def unit_source_def)
  from departures_and_arrivals [OF r] h have "n_d = n_a" by blast
  with r na h show ?thesis by (auto simp: tandem3_def)
qed

text \<open>
  In every run drained to completion, whatever the feedback probabilities and the
  draws, the arrival counter is the number of departures plus the number of times a
  client was sent back to station 0: nothing else separates the two counters.
\<close>

lemma arrivals_are_departures_and_returns:
  assumes "servers_simulation fuel R C k0 = Some (Inr (t, n, n_a, n_d, q, a, d))"
    and "init R C k0 = Inr s0" and "cfg_finish C"
  shows "n_a = n_d + returns_to_0 fuel R C s0"
proof -
  from assms(1) obtain s where sim: "simulate fuel R C k0 = Some (Inr s)"
    and nd: "n_d = st_n_d s" and na: "n_a = st_n_a s"
    by (rule servers_simulation_state)
  from sim obtain s0' where i: "init R C k0 = Inr s0'" and p: "after_passes fuel R C s0' = Inr s"
    and stop: "\<not> loop_cond C s"
    by (rule simulate_after_passes)
  from i assms(2) have s0: "s0' = s0" by simp
  from stop assms(3) have ev: "st_events s = []" by (simp add: loop_cond_def)
  have sv0: "serving_inv s0" using init_serving [OF assms(2)] .
  have sv: "serving_inv s" using passes_le [OF i p] by simp
  from after_passes_returns [OF p [unfolded s0] sv0] init_inside [OF assms(2)]
  have "inside s + returns_to_0 fuel R C s0 = st_n_a s" by simp
  moreover from empty_queues [OF sv ev] ev have "inside s = st_n_d s"
    by (simp add: inside_def in_transit_def)
  ultimately show ?thesis by (simp add: nd na)
qed

text \<open>
  Claim C5 at a failing input. Three stations, all feedback probabilities zero,
  drained to completion; the routing draw after station 1 is 0, so the test
  \<^verbatim>\<open>random.uniform(0,1) > p[i]\<close> fails and \<^verbatim>\<open>random.choice([0])\<close> sends the client
  back to station 0, where it is given the identifier 1 and counted as a second
  arrival. The run ends with an empty event queue, two arrivals and one departure:
  the one return to station 0 is the whole difference.
\<close>

theorem returned_client_counted_as_arrival:
  "cfg_finish tandem3 \<and> cfg_p tandem3 = [0, 0, 0] \<and>
   run_summary (simulate 20 zero_draw_source tandem3 0) = Some (6, 2, 1, []) \<and>
   (\<exists>s0. init zero_draw_source tandem3 0 = Inr s0 \<and>
      returns_to_0 20 zero_draw_source tandem3 s0 = 1)"
  by (simp add: run_summary_def simulate_def sent_back_to_0_def engine_defs zero_draw_source_def
      tandem3_def eval_nat_numeral)

text \<open>
  A draw of 0 alone loses nobody. With four stations and the zero draw after
  station 2, the client is sent back to station 1, passes stations 1 and 2 a second
  time and leaves: one arrival, one departure.
\<close>

lemma zero_draw_without_return_to_0:
  "cfg_finish tandem4 \<and> cfg_p tandem4 = [0, 0, 0, 0] \<and> unif late_zero_draw_source 6 = 0 \<and>
   (case simulate 30 late_zero_draw_source tandem4 0 of
      Some (Inr s) \<Rightarrow> st_t s = 7 \<and> st_n_a s = 1 \<and> st_n_d s = 1 \<and> st_events s = [] \<and>
         dict_get (st_q s ! 1) 0 = [2, 4] \<and> dict_get (st_q s ! 2) 0 = [3, 5]
    | _ \<Rightarrow> False)"
  by (simp add: simulate_def engine_defs late_zero_draw_source_def tandem4_def eval_nat_numeral)

subsection \<open>The horizon and the dispatch loop\<close>

lemma asigned_admission:
  assumes "on_asigned R C s c i = Inr s'"
    and "(tt, ASIGNED, c', i') \<in> set (st_events s')" "(tt, ASIGNED, c', i') \<notin> set (st_events s)"
  shows "tt < cfg_time C"
  using assms
  by (auto simp: on_asigned_def Let_def put_def split: if_splits sum.splits)

text \<open>
  Claim C1, as amended. With the drain flag false the horizon gates the dispatch loop
  too: once the clock has reached the horizon nothing more is dispatched, whatever is
  pending, so the run ends with the clock at or past the horizon or with an empty
  queue. Only with the drain flag true does the loop run until the queue is empty.
  In both modes a further external arrival is scheduled only for a time before the
  horizon.
\<close>

theorem horizon_gates_dispatch:
  "(\<not> cfg_finish C \<and> cfg_time C \<le> st_t s1 \<longrightarrow> run fuel R C s1 = Some (Inr s1)) \<and>
   (run fuel R C s0 = Some (Inr s') \<longrightarrow>
      (if cfg_finish C then st_events s' = [] else cfg_time C \<le> st_t s' \<or> st_events s' = [])) \<and>
   (on_asigned R C s2 c i = Inr s3 \<and> (tt, ASIGNED, c', i') \<in> set (st_events s3) \<and>
      (tt, ASIGNED, c', i') \<notin> set (st_events s2) \<longrightarrow> tt < cfg_time C)"
proof (intro conjI impI)
  assume "\<not> cfg_finish C \<and> cfg_time C \<le> st_t s1"
  then have "\<not> loop_cond C s1" by (simp add: loop_cond_def)
  then show "run fuel R C s1 = Some (Inr s1)" by (cases fuel) simp_all
next
  assume "run fuel R C s0 = Some (Inr s')"
  from run_after_passes [OF this] have "\<not> loop_cond C s'" by simp
  then show "if cfg_finish C then st_events s' = [] else cfg_time C \<le> st_t s' \<or> st_events s' = []"
    by (auto simp: loop_cond_def)
next
  assume "on_asigned R C s2 c i = Inr s3 \<and> (tt, ASIGNED, c', i') \<in> set (st_events s3) \<and>
      (tt, ASIGNED, c', i') \<notin> set (st_events s2)"
  then show "tt < cfg_time C" using asigned_admission by blast
qed

theorem horizon_gates_dispatch_witness:
  "\<exists>s0 s' s3. init unit_source short_horizon 0 = Inr s0 \<and>
     \<not> cfg_finish short_horizon \<and> cfg_time short_horizon \<le> st_t s' \<and>
     run 10 unit_source short_horizon s' = Some (Inr s') \<and>
     run 10 unit_source short_horizon s0 = Some (Inr s') \<and>
     st_events s' = [(6, FINISH, 1, 0)] \<and>
     on_asigned unit_source short_horizon (s0\<lparr>st_t := 2, st_events := []\<rparr>) 0 0 = Inr s3 \<and>
     (4, ASIGNED, 0, 0) \<in> set (st_events s3) \<and>
     (4, ASIGNED, 0, 0) \<notin> set (st_events (s0\<lparr>st_t := 2, st_events := []\<rparr>)) \<and>
     4 < cfg_time short_horizon"
proof -
  have "\<exists>s0 s' s3. init unit_source short_horizon 0 = Inr s0 \<and>
     \<not> cfg_finish short_horizon \<and> cfg_time short_horizon \<le> st_t s' \<and>
     run 10 unit_source short_horizon s0 = Some (Inr s') \<and>
     st_events s' = [(6, FINISH, 1, 0)] \<and>
     on_asigned unit_source short_horizon (s0\<lparr>st_t := 2, st_events := []\<rparr>) 0 0 = Inr s3 \<and>
     (4, ASIGNED, 0, 0) \<in> set (st_events s3)"
    by (simp add: engine_defs unit_source_def short_horizon_def eval_nat_numeral)
  then obtain s0 s' s3 where h: "init unit_source short_horizon 0 = Inr s0"
      "\<not> cfg_finish short_horizon \<and> cfg_time short_horizon \<le> st_t s'"
      "run 10 unit_source short_horizon s0 = Some (Inr s')"
      "st_events s' = [(6, FINISH, 1, 0)]"
      "on_asigned unit_source short_horizon (s0\<lparr>st_t := 2, st_events := []\<rparr>) 0 0 = Inr s3"
      "(4, ASIGNED, 0, 0) \<in> set (st_events s3)"
    by blast
  have fresh: "(4, ASIGNED, 0, 0) \<notin> set (st_events (s0\<lparr>st_t := 2, st_events := []\<rparr>))"
    by simp
  from horizon_gates_dispatch [where C = short_horizon and R = unit_source and fuel = 10
      and ?s1.0 = s' and ?s0.0 = s0 and s' = s' and ?s2.0 = "s0\<lparr>st_t := 2, st_events := []\<rparr>"
      and c = 0 and i = 0 and ?s3.0 = s3 and tt = 4 and c' = 0 and i' = 0]
    h fresh
  have "run 10 unit_source short_horizon s' = Some (Inr s')" and "4 < cfg_time short_horizon"
    by blast+
  with h fresh show ?thesis by blast
qed

text \<open>
  Claim C1 as stated fails: with the drain flag false and horizon 5, client 1 is
  admitted at time 4; the loop exits after the pass at time 5 and the client's
  Finish entry (time 6) stays in the queue, never dispatched.
\<close>

theorem short_horizon_counterexample:
  "\<not> cfg_finish short_horizon \<and>
   run_summary (simulate 10 unit_source short_horizon 0) = Some (5, 2, 1, [(6, FINISH, 1, 0)])"
  by (simp add: run_summary_def simulate_def engine_defs unit_source_def short_horizon_def
      eval_nat_numeral)

subsection \<open>Invalid configurations\<close>

text \<open>
  Claim C9, as amended. The engine checks nothing before it schedules: with a non-zero
  arrival rate the first arrival is put in the queue whatever the other parameters
  are. A zero arrival rate fails with \<^verbatim>\<open>ZeroDivisionError\<close> in that first
  \<^verbatim>\<open>expovariate\<close>; \<open>n < 1\<close> fails with \<^verbatim>\<open>IndexError\<close> in the first pass,
  after the first entry was scheduled and taken out again.
\<close>

theorem no_configuration_check:
  "(cfg_lambda_arrival_time C1 = 0 \<longrightarrow> simulate fuel R C1 k0 = Some (Inl ZeroDivisionError)) \<and>
   (cfg_lambda_arrival_time C2 \<noteq> 0 \<longrightarrow>
      (\<exists>s0. init R C2 k0 = Inr s0 \<and>
         st_events s0 = [(unit_exp R k0 / cfg_lambda_arrival_time C2, ASIGNED, 0, 0)])) \<and>
   (cfg_lambda_arrival_time C2 \<noteq> 0 \<and> cfg_n C2 < 1 \<and> (cfg_finish C2 \<or> 0 < cfg_time C2) \<longrightarrow>
      simulate (Suc fuel) R C2 k0 = Some (Inl IndexError))"
proof (intro conjI impI)
  assume "cfg_lambda_arrival_time C1 = 0"
  then show "simulate fuel R C1 k0 = Some (Inl ZeroDivisionError)"
    by (simp add: simulate_def init_def expovariate_def)
next
  assume "cfg_lambda_arrival_time C2 \<noteq> 0"
  then show "\<exists>s0. init R C2 k0 = Inr s0 \<and>
         st_events s0 = [(unit_exp R k0 / cfg_lambda_arrival_time C2, ASIGNED, 0, 0)]"
    by (simp add: init_def expovariate_def put_def)
next
  assume h: "cfg_lambda_arrival_time C2 \<noteq> 0 \<and> cfg_n C2 < 1 \<and> (cfg_finish C2 \<or> 0 < cfg_time C2)"
  then have n: "nat (cfg_n C2) = 0" by simp
  from h show "simulate (Suc fuel) R C2 k0 = Some (Inl IndexError)"
    by (simp add: simulate_def init_def expovariate_def put_def loop_cond_def step_def get_def
        on_asigned_def Let_def n)
qed

theorem no_configuration_check_witness:
  "cfg_lambda_arrival_time zero_rate = 0 \<and>
   simulate 3 unit_source zero_rate 0 = Some (Inl ZeroDivisionError) \<and>
   cfg_lambda_arrival_time no_stations \<noteq> 0 \<and> cfg_n no_stations < 1 \<and> cfg_finish no_stations \<and>
   (\<exists>s0. init unit_source no_stations 0 = Inr s0 \<and> st_events s0 = [(1, ASIGNED, 0, 0)]) \<and>
   simulate (Suc 3) unit_source no_stations 0 = Some (Inl IndexError)"
proof -
  have h: "cfg_lambda_arrival_time zero_rate = 0" "cfg_lambda_arrival_time no_stations \<noteq> 0"
    "cfg_n no_stations < 1" "cfg_finish no_stations" "cfg_lambda_arrival_time no_stations = 1"
    "unit_exp unit_source 0 = 1"
    by (simp_all add: zero_rate_def no_stations_def unit_source_def)
  from no_configuration_check [of zero_rate 3 unit_source 0 no_stations] h
  show ?thesis by simp
qed

text \<open>
  The claim as stated fails: a configuration with a feedback probability outside
  \<open>[0,1]\<close> and a rate sequence longer than \<open>n\<close> runs to completion, and with
  \<open>n = 0\<close> the first entry is scheduled before anything fails.
\<close>

theorem unvalidated_counterexample:
  "\<not> valid_config unvalidated \<and>
   run_summary (simulate 20 unit_source unvalidated 0) = Some (4, 1, 1, []) \<and>
   \<not> valid_config no_stations \<and>
   run_summary (Some (init unit_source no_stations 0)) = Some (0, 0, 0, [(1, ASIGNED, 0, 0)])"
  by (simp add: valid_config_def run_summary_def simulate_def engine_defs unit_source_def
      unvalidated_def no_stations_def eval_nat_numeral)

subsection \<open>Client identifiers under feedback\<close>

text \<open>
  Claim C2 at a failing input. Three stations, feedback probability 1/2 at station 1,
  routing draw 0: client 0 finishes station 1 at time 3 and is sent back to station 0.
  The entry enqueued is \<open>Assigned(0, 0)\<close>, but its dispatch records the queue entry
  under the fresh identifier 1 (the arrival counter) and counts a second arrival; the
  rest of the trace, up to the departure at time 6, is under identifier 1, and
  identifier 0 never departs.
\<close>

theorem feedback_to_station_0_renames_client:
  "cfg_p tandem3_feedback = [0, 1/2, 0] \<and>
   run_summary (Some (passes 6 zero_draw_source tandem3_feedback 0))
     = Some (3, 1, 0, [(3, ASIGNED, 0, 0)]) \<and>
   (case passes 7 zero_draw_source tandem3_feedback 0 of
      Inl err \<Rightarrow> False
    | Inr s \<Rightarrow> st_n_a s = 2 \<and> st_queue s ! 0 = [1] \<and>
        dict_get (st_q s ! 0) 0 = [1] \<and> dict_get (st_q s ! 0) 1 = [3] \<and>
        dict_get (st_d s ! 1) 0 = [3] \<and> st_events s = [(3, ARRIVAL, 1, 0)]) \<and>
   (case simulate 20 zero_draw_source tandem3_feedback 0 of
      Some (Inr s) \<Rightarrow> st_n_a s = 2 \<and> st_n_d s = 1 \<and>
        dict_get (st_d s ! 2) 0 = [] \<and> dict_get (st_d s ! 2) 1 = [6]
    | _ \<Rightarrow> False)"
  by (simp add: run_summary_def passes_def simulate_def engine_defs zero_draw_source_def
      tandem3_feedback_def eval_nat_numeral)

subsection \<open>The system time of the metrics reducer\<close>

lemma bump_twice:
  fixes xs :: "real list"
  shows "(xs[c := xs ! c - x])[c := (xs[c := xs ! c - x]) ! c + y] = xs[c := xs ! c + (y - x)]"
proof (cases "c < length xs")
  case True
  then show ?thesis by (simp add: algebra_simps)
next
  case False
  then have "length xs \<le> c" by simp
  then show ?thesis by (simp add: list_update_beyond)
qed

lemma per_client_sys:
  "snd (snd (per_client res s c (w, u, sys))) = sys[c := sys ! c + sys_delta res s c]"
proof -
  obtain t n n_a n_d q a d where res: "res = (t, n, n_a, n_d, q, a, d)"
    by (cases res) auto
  show ?thesis
  proof (cases "has_visit q a d s c")
    case False
    then show ?thesis
      by (auto simp: per_client_def res sys_delta_def has_visit_def Let_def)
  next
    case True
    then have ne: "dict_get (q ! s) c \<noteq> []" "dict_get (a ! s) c \<noteq> []"
      "dict_get (d ! s) c \<noteq> []"
      by (simp_all add: has_visit_def)
    let ?q0 = "dict_get (q ! s) c ! 0" and ?dl = "last (dict_get (d ! s) c)"
    let ?sys1 = "if s = 0 \<and> c < n_d then sys[c := sys ! c - ?q0] else sys"
    let ?sys2 = "if int s = n - 1 \<and> c < n_d then ?sys1[c := ?sys1 ! c + ?dl] else ?sys1"
    have pc: "snd (snd (per_client res s c (w, u, sys))) = ?sys2"
      by (simp add: per_client_def res Let_def ne)
    have sd: "sys_delta res s c =
        (if c < n_d then (if int s = n - 1 then ?dl else 0) - (if s = 0 then ?q0 else 0) else 0)"
      using True by (simp add: sys_delta_def res)
    show ?thesis
    proof (cases "c < n_d")
      case False
      then show ?thesis unfolding pc sd by simp
    next
      case c: True
      show ?thesis
      proof (cases "s = 0")
        case s0: True
        show ?thesis
        proof (cases "int s = n - 1")
          case True
          with s0 c show ?thesis
            unfolding pc sd using bump_twice [of sys c ?q0 ?dl] by simp
        next
          case False
          with s0 c show ?thesis unfolding pc sd by simp
        qed
      next
        case False
        with c show ?thesis unfolding pc sd by simp
      qed
    qed
  qed
qed

lemma fold_clients_sys:
  "snd (snd (fold (per_client res s) cs (w, u, sys)))
     = fold (\<lambda>c sys. sys[c := sys ! c + sys_delta res s c]) cs sys"
proof (induction cs arbitrary: w u sys)
  case Nil
  show ?case by simp
next
  case (Cons c cs)
  obtain w' u' sys' where step: "per_client res s c (w, u, sys) = (w', u', sys')"
    by (cases "per_client res s c (w, u, sys)") auto
  with per_client_sys [of res s c w u sys] have "sys' = sys[c := sys ! c + sys_delta res s c]"
    by simp
  with Cons.IH [of w' u' sys'] step show ?case by simp
qed

lemma fold_bump:
  fixes sys :: "real list"
  assumes "distinct cs"
  shows "length (fold (\<lambda>c sys. sys[c := sys ! c + f c]) cs sys) = length sys \<and>
     (\<forall>c < length sys. fold (\<lambda>c sys. sys[c := sys ! c + f c]) cs sys ! c
        = sys ! c + (if c \<in> set cs then f c else 0))"
  using assms
proof (induction cs arbitrary: sys)
  case Nil
  show ?case by simp
next
  case (Cons x cs)
  let ?sys = "sys[x := sys ! x + f x]"
  from Cons.prems have d: "distinct cs" and nx: "x \<notin> set cs" by simp_all
  from Cons.IH [OF d, of ?sys] have
    len: "length (fold (\<lambda>c sys. sys[c := sys ! c + f c]) cs ?sys) = length sys"
    and nth: "\<And>c. c < length sys \<Longrightarrow> fold (\<lambda>c sys. sys[c := sys ! c + f c]) cs ?sys ! c
        = ?sys ! c + (if c \<in> set cs then f c else 0)"
    by simp_all
  show ?case
  proof (intro conjI allI impI)
    show "length (fold (\<lambda>c sys. sys[c := sys ! c + f c]) (x # cs) sys) = length sys"
      using len by simp
  next
    fix c assume c: "c < length sys"
    show "fold (\<lambda>c sys. sys[c := sys ! c + f c]) (x # cs) sys ! c
        = sys ! c + (if c \<in> set (x # cs) then f c else 0)"
      using nth [OF c] c nx by (cases "c = x") simp_all
  qed
qed

lemma per_station_sys:
  assumes "res = (t, n, n_a, n_d, q, a, d)"
  shows "snd (snd (per_station res s (wt, ut, sys)))
     = fold (\<lambda>c sys. sys[c := sys ! c + sys_delta res s c]) [0..<n_a] sys"
proof -
  obtain w' u' sys' where f: "fold (per_client res s) [0..<n_a] ([], [], sys) = (w', u', sys')"
    by (cases "fold (per_client res s) [0..<n_a] ([], [], sys)") auto
  with fold_clients_sys [of res s "[0..<n_a]" "[]" "[]" sys]
  have "sys' = fold (\<lambda>c sys. sys[c := sys ! c + sys_delta res s c]) [0..<n_a] sys"
    by simp
  with f show ?thesis by (simp add: per_station_def assms)
qed

lemma fold_stations_sys:
  assumes res: "res = (t, n, n_a, n_d, q, a, d)"
  shows "length (snd (snd (fold (per_station res) ss (wt, ut, sys)))) = length sys \<and>
     (\<forall>c < length sys. snd (snd (fold (per_station res) ss (wt, ut, sys))) ! c
        = sys ! c + (if c < n_a then sum_list (map (\<lambda>s. sys_delta res s c) ss) else 0))"
proof (induction ss arbitrary: wt ut sys)
  case Nil
  show ?case by simp
next
  case (Cons s ss)
  obtain wt' ut' sys' where step: "per_station res s (wt, ut, sys) = (wt', ut', sys')"
    by (cases "per_station res s (wt, ut, sys)") auto
  with per_station_sys [OF res, of s wt ut sys]
  have sys': "sys' = fold (\<lambda>c sys. sys[c := sys ! c + sys_delta res s c]) [0..<n_a] sys"
    by simp
  from fold_bump [of "[0..<n_a]" "\<lambda>c. sys_delta res s c" sys] sys'
  have len: "length sys' = length sys"
    and nth: "\<And>c. c < length sys \<Longrightarrow> sys' ! c = sys ! c + (if c < n_a then sys_delta res s c else 0)"
    by simp_all
  from Cons.IH [of wt' ut' sys'] len have
    l2: "length (snd (snd (fold (per_station res) ss (wt', ut', sys')))) = length sys"
    and n2: "\<And>c. c < length sys \<Longrightarrow> snd (snd (fold (per_station res) ss (wt', ut', sys'))) ! c
        = sys' ! c + (if c < n_a then sum_list (map (\<lambda>s. sys_delta res s c) ss) else 0)"
    by simp_all
  show ?case
  proof (intro conjI allI impI)
    show "length (snd (snd (fold (per_station res) (s # ss) (wt, ut, sys)))) = length sys"
      using l2 step by simp
  next
    fix c assume c: "c < length sys"
    show "snd (snd (fold (per_station res) (s # ss) (wt, ut, sys))) ! c
        = sys ! c + (if c < n_a then sum_list (map (\<lambda>s. sys_delta res s c) (s # ss)) else 0)"
      using n2 [OF c] nth [OF c] step by simp
  qed
qed

lemma sum_single:
  "sum_list (map (\<lambda>s. if s = k then g s else 0) [0..<N]) = (if k < N then g k else (0::real))"
  by (induction N) auto

lemma sum_sys_delta:
  assumes res: "res = (t, n, n_a, n_d, q, a, d)"
  shows "sum_list (map (\<lambda>s. sys_delta res s c) [0..<nat n]) =
     (if c < n_d \<and> 1 \<le> n \<and> has_visit q a d (nat n - 1) c
        then last (dict_get (d ! (nat n - 1)) c) else 0)
     - (if c < n_d \<and> 1 \<le> n \<and> has_visit q a d 0 c then dict_get (q ! 0) c ! 0 else 0)"
proof -
  let ?A = "\<lambda>s. if s = nat n - 1
      then (if has_visit q a d s c \<and> c < n_d then last (dict_get (d ! s) c) else 0) else 0"
  let ?B = "\<lambda>s. if s = 0
      then (if has_visit q a d s c \<and> c < n_d then dict_get (q ! s) c ! 0 else 0) else 0"
  have "sys_delta res s c = ?A s - ?B s" if "s \<in> set [0..<nat n]" for s
  proof -
    from that have "s < nat n" by simp
    then have "int s = n - 1 \<longleftrightarrow> s = nat n - 1" by auto
    then show ?thesis by (simp add: sys_delta_def res)
  qed
  then have "map (\<lambda>s. sys_delta res s c) [0..<nat n] = map (\<lambda>s. ?A s - ?B s) [0..<nat n]"
    by (intro map_cong refl) 
  then have "sum_list (map (\<lambda>s. sys_delta res s c) [0..<nat n])
      = sum_list (map ?A [0..<nat n]) - sum_list (map ?B [0..<nat n])"
    by (simp only: sum_list_subtractf)
  also have "sum_list (map ?A [0..<nat n]) =
      (if c < n_d \<and> 1 \<le> n \<and> has_visit q a d (nat n - 1) c
        then last (dict_get (d ! (nat n - 1)) c) else 0)"
    by (subst sum_single) auto
  also have "sum_list (map ?B [0..<nat n]) =
      (if c < n_d \<and> 1 \<le> n \<and> has_visit q a d 0 c then dict_get (q ! 0) c ! 0 else 0)"
    by (subst sum_single) auto
  finally show ?thesis .
qed

lemma metrics_system_time:
  "length (m_system_time (metrics_of (t, n, n_a, n_d, q, a, d))) = n_a \<and>
   (\<forall>c < n_a. m_system_time (metrics_of (t, n, n_a, n_d, q, a, d)) ! c =
     (if c < n_d \<and> 1 \<le> n \<and> has_visit q a d (nat n - 1) c
        then last (dict_get (d ! (nat n - 1)) c) else 0)
     - (if c < n_d \<and> 1 \<le> n \<and> has_visit q a d 0 c then dict_get (q ! 0) c ! 0 else 0))"
proof -
  let ?res = "(t, n, n_a, n_d, q, a, d)"
  let ?f = "fold (per_station ?res) [0..<nat n] ([], [], replicate n_a 0)"
  have m: "m_system_time (metrics_of ?res) = snd (snd ?f)"
    by (cases ?f) (simp add: metrics_of_def)
  from fold_stations_sys [OF refl, of t n n_a n_d q a d "[0..<nat n]" "[]" "[]" "replicate n_a 0"]
  have len: "length (snd (snd ?f)) = n_a"
    and nth: "\<And>c. c < n_a \<Longrightarrow> snd (snd ?f) ! c
       = sum_list (map (\<lambda>s. sys_delta ?res s c) [0..<nat n])"
    by simp_all
  show ?thesis
    using len nth sum_sys_delta [OF refl, of t n n_a n_d q a d] by (simp add: m)
qed

text \<open>
  What the reducer computes. For a run that returned, the system-time list has one
  entry per arrival. The entry of client \<open>c\<close> is the last departure stamp at station
  \<open>n-1\<close> (counted when \<open>c < n_d\<close> and the client has a queue-entry, a service-start
  and a departure stamp there, else 0) minus the first queue-entry stamp at station 0
  (counted when \<open>c < n_d\<close> and the client has the three stamps there, else 0). The
  clients are selected by position, \<open>c < n_d\<close> against the departure counter, and not
  by their own departure.
\<close>

theorem system_time_by_position:
  assumes "servers_simulation fuel R C k0 = Some (Inr (t, n, n_a, n_d, q, a, d))"
    and "metrics_by_simulation fuel R C k0 = Some (Inr (m, k'))"
  shows "length (m_system_time m) = n_a \<and>
   (\<forall>c < n_a. m_system_time m ! c =
     (if c < n_d \<and> 1 \<le> n \<and> has_visit q a d (nat n - 1) c
        then last (dict_get (d ! (nat n - 1)) c) else 0)
     - (if c < n_d \<and> 1 \<le> n \<and> has_visit q a d 0 c then dict_get (q ! 0) c ! 0 else 0))"
proof -
  from assms(1) obtain s where sim: "simulate fuel R C k0 = Some (Inr s)"
    and f: "n_d = st_n_d s" "n_a = st_n_a s" "t = st_t s" "q = st_q s" "a = st_a s" "d = st_d s"
      "n = cfg_n C"
    by (rule servers_simulation_state)
  from assms(2) sim have "m = metrics_of (result_of C s)"
    by (simp add: metrics_by_simulation_def)
  with f have "m = metrics_of (t, n, n_a, n_d, q, a, d)"
    by (simp add: result_of_def)
  with metrics_system_time [of t n n_a n_d q a d] show ?thesis by simp
qed

theorem system_time_by_position_witness:
  "\<exists>t n q a d m k'.
     servers_simulation 20 zero_draw_source tandem3_feedback 0 = Some (Inr (t, n, 2, 1, q, a, d)) \<and>
     metrics_by_simulation 20 zero_draw_source tandem3_feedback 0 = Some (Inr (m, k')) \<and>
     n = 3 \<and> has_visit q a d 0 0 \<and> \<not> has_visit q a d 2 0 \<and> dict_get (q ! 0) 0 ! 0 = 1 \<and>
     length (m_system_time m) = 2 \<and> m_system_time m ! 0 = 0 - 1 \<and> m_system_time m ! 1 = 0 - 0"
proof -
  have "\<exists>t n q a d m k'.
     servers_simulation 20 zero_draw_source tandem3_feedback 0 = Some (Inr (t, n, 2, 1, q, a, d)) \<and>
     metrics_by_simulation 20 zero_draw_source tandem3_feedback 0 = Some (Inr (m, k')) \<and>
     n = 3 \<and> has_visit q a d 0 0 \<and> \<not> has_visit q a d 2 0 \<and> dict_get (q ! 0) 0 ! 0 = 1"
    by (simp add: servers_simulation_def metrics_by_simulation_def simulate_def result_of_def
        has_visit_def engine_defs zero_draw_source_def tandem3_feedback_def eval_nat_numeral)
  then obtain t n q a d m k' where
    r: "servers_simulation 20 zero_draw_source tandem3_feedback 0 = Some (Inr (t, n, 2, 1, q, a, d))"
    and mm: "metrics_by_simulation 20 zero_draw_source tandem3_feedback 0 = Some (Inr (m, k'))"
    and v: "n = 3" "has_visit q a d 0 0" "\<not> has_visit q a d 2 0" "dict_get (q ! 0) 0 ! 0 = 1"
    by blast
  from system_time_by_position [OF r mm] v
  have "length (m_system_time m) = 2" "m_system_time m ! 0 = 0 - 1" "m_system_time m ! 1 = 0 - 0"
    by simp_all
  with r mm v show ?thesis by blast
qed

text \<open>
  Claim C3 at a failing input, the run of the previous section: identifier 1 entered
  station 0 at time 3 and left station 2 at time 6, and its system time is 0, not 3,
  because \<open>1 < n_d = 1\<close> is false; identifier 0 never left station 2 and its system
  time is -1.
\<close>

theorem departed_client_without_system_time:
  "(case simulate 20 zero_draw_source tandem3_feedback 0 of
      Some (Inr s) \<Rightarrow> st_n_a s = 2 \<and> st_n_d s = 1 \<and>
        dict_get (st_q s ! 0) 0 = [1] \<and> dict_get (st_d s ! 2) 0 = [] \<and>
        dict_get (st_q s ! 0) 1 = [3] \<and> dict_get (st_d s ! 2) 1 = [6]
    | _ \<Rightarrow> False) \<and>
   (case metrics_by_simulation 20 zero_draw_source tandem3_feedback 0 of
      Some (Inr (m, k)) \<Rightarrow> m_system_time m = [- 1, 0]
    | _ \<Rightarrow> False)"
  by (simp add: metrics_defs simulate_def engine_defs zero_draw_source_def
      tandem3_feedback_def eval_nat_numeral)

text \<open>
  The positional test also misses without any return to station 0. In the overtaking
  run client 0 is sent back from station 2 to station 1 and client 1 passes it: when
  the loop stops at the horizon, client 1 is the one departure (entered at 2, left
  station 3 at 5.5) and has system time 0, while client 0, still inside, has -1.
\<close>

lemma overtaking_system_time:
  "(case simulate 40 overtaking_source tandem4_horizon 0 of
      Some (Inr s) \<Rightarrow> st_n_a s = 5 \<and> st_n_d s = 1 \<and>
        dict_get (st_q s ! 0) 0 = [1] \<and> dict_get (st_d s ! 3) 0 = [] \<and>
        dict_get (st_q s ! 0) 1 = [2] \<and> dict_get (st_d s ! 3) 1 = [11/2]
    | _ \<Rightarrow> False) \<and>
   (case metrics_by_simulation 40 overtaking_source tandem4_horizon 0 of
      Some (Inr (m, k)) \<Rightarrow> m_system_time m = [- 1, 0, 0, 0, 0]
    | _ \<Rightarrow> False)"
  by (simp add: metrics_defs simulate_def engine_defs overtaking_source_def
      tandem4_horizon_def eval_nat_numeral)

subsection \<open>Clients and stations without observations\<close>

text \<open>
  Claim C8 at a failing input. Two stations, horizon 1, drain flag false: the only
  client enters station 0 at time 2 and the loop stops. It has no departure anywhere,
  and its system time is reported as 0, so the mean system time of the run is 0.
  Station 1 has no observation: its wait and use means are \<^verbatim>\<open>nan\<close>, and so is the
  mean over the stations. The wait and use lists themselves leave out the clients
  without a queue entry.
\<close>

theorem absent_client_counts_as_zero:
  "(case simulate 10 unit_source early_stop 0 of
      Some (Inr s) \<Rightarrow> st_n_a s = 1 \<and> st_n_d s = 0 \<and>
        dict_get (st_q s ! 0) 0 = [2] \<and> dict_get (st_d s ! 1) 0 = [] \<and> dict_get (st_q s ! 1) 0 = []
    | _ \<Rightarrow> False) \<and>
   (case metrics_by_simulation 10 unit_source early_stop 0 of
      Some (Inr (m, k)) \<Rightarrow>
        m_system_time m = [0] \<and> np_mean (m_system_time m) = Some 0 \<and>
        m_wait_time m = [Some 0, None] \<and> nan_mean (m_wait_time m) = None \<and>
        m_use_time m = [None, None]
    | _ \<Rightarrow> False)"
  by (simp add: metrics_defs nan_mean_def simulate_def engine_defs unit_source_def
      early_stop_def eval_nat_numeral)

subsection \<open>The replication loop stops between the minimum and the maximum\<close>

lemma replications_unfold:
  assumes "metrics_by_simulation fuel R C k = Some (Inr (metrics, k'))"
  shows "replications fuel R C mn mx thr it (sys, w, u) k =
     (if it + 1 \<ge> mx
        then Some (Inr (sys @ [np_mean (m_system_time metrics)],
               w @ [nan_mean (m_wait_time metrics)], u @ [nan_mean (m_use_time metrics)]))
      else if it + 1 \<ge> mn \<and> converged (sys @ [np_mean (m_system_time metrics)]) thr
        then Some (Inr (sys @ [np_mean (m_system_time metrics)],
               w @ [nan_mean (m_wait_time metrics)], u @ [nan_mean (m_use_time metrics)]))
      else replications fuel R C mn mx thr (it + 1)
             (sys @ [np_mean (m_system_time metrics)],
              w @ [nan_mean (m_wait_time metrics)], u @ [nan_mean (m_use_time metrics)]) k')"
  by (subst replications.simps) (simp add: assms Let_def)

lemma replications_Some:
  assumes "replications fuel R C mn mx thr it acc k = Some (Inr res)"
  obtains metrics k' where "metrics_by_simulation fuel R C k = Some (Inr (metrics, k'))"
  using assms
  by (subst (asm) replications.simps) (auto split: option.splits sum.splits)

lemma replications_count:
  assumes "replications fuel R C mn mx thr it (sys, w, u) k = Some (Inr (sys', w', u'))"
    and "length sys = it"
  shows "take it sys' = sys \<and> Suc it \<le> length sys' \<and>
     (Suc it \<le> mx \<longrightarrow> length sys' \<le> mx) \<and>
     (Suc it \<le> mn \<and> mn \<le> mx \<longrightarrow>
        mn \<le> length sys' \<and> (converged (take mn sys') thr \<longrightarrow> length sys' = mn))"
  using assms
proof (induction "mx - it" arbitrary: it sys w u k rule: less_induct)
  case less
  from less.prems(1) obtain metrics k' where
    m: "metrics_by_simulation fuel R C k = Some (Inr (metrics, k'))"
    by (rule replications_Some)
  define sys1 where "sys1 = sys @ [np_mean (m_system_time metrics)]"
  define w1 where "w1 = w @ [nan_mean (m_wait_time metrics)]"
  define u1 where "u1 = u @ [nan_mean (m_use_time metrics)]"
  have len1: "length sys1 = Suc it" using less.prems(2) by (simp add: sys1_def)
  have tk: "take it sys1 = sys" using less.prems(2) by (simp add: sys1_def)
  have unfolded: "(if it + 1 \<ge> mx then Some (Inr (sys1, w1, u1))
      else if it + 1 \<ge> mn \<and> converged sys1 thr then Some (Inr (sys1, w1, u1))
      else replications fuel R C mn mx thr (it + 1) (sys1, w1, u1) k') = Some (Inr (sys', w', u'))"
    using less.prems(1)
    unfolding replications_unfold [OF m] sys1_def w1_def u1_def .
  consider (stop_max) "mx \<le> Suc it"
    | (stop_conv) "\<not> mx \<le> Suc it" "mn \<le> Suc it" "converged sys1 thr"
    | (again) "\<not> mx \<le> Suc it" "\<not> (mn \<le> Suc it \<and> converged sys1 thr)"
    by blast
  then show ?case
  proof cases
    case stop_max
    with unfolded have "sys' = sys1" by simp
    with len1 tk have e: "take it sys' = sys" "length sys' = Suc it" by simp_all
    from stop_max e(2) have a: "Suc it \<le> mx \<longrightarrow> length sys' \<le> mx" by arith
    from stop_max e(2) have b: "Suc it \<le> mn \<and> mn \<le> mx \<longrightarrow> length sys' = mn" by arith
    from e have c: "Suc it \<le> length sys'" by simp
    from e(1) a b c show ?thesis by simp
  next
    case stop_conv
    with unfolded have "sys' = sys1" by simp
    with len1 tk have e: "take it sys' = sys" "length sys' = Suc it" by simp_all
    from stop_conv e(2) have a: "Suc it \<le> mx \<longrightarrow> length sys' \<le> mx" by arith
    from stop_conv e(2) have b: "Suc it \<le> mn \<and> mn \<le> mx \<longrightarrow> length sys' = mn" by arith
    from e have c: "Suc it \<le> length sys'" by simp
    from e(1) a b c show ?thesis by simp
  next
    case again
    with unfolded have rec: "replications fuel R C mn mx thr (Suc it) (sys1, w1, u1) k'
        = Some (Inr (sys', w', u'))"
      by simp
    from again(1) have "mx - Suc it < mx - it" by arith
    from less.hyps [OF this rec len1]
    have ih1: "take (Suc it) sys' = sys1" and ih2: "Suc (Suc it) \<le> length sys'"
      and ih3: "Suc (Suc it) \<le> mx \<longrightarrow> length sys' \<le> mx"
      and ih4: "Suc (Suc it) \<le> mn \<and> mn \<le> mx \<longrightarrow>
        mn \<le> length sys' \<and> (converged (take mn sys') thr \<longrightarrow> length sys' = mn)"
      by blast+
    have "take it sys' = take it (take (Suc it) sys')" by (simp add: min_def)
    with ih1 tk have p1: "take it sys' = sys" by simp
    from again(1) have "Suc (Suc it) \<le> mx" by arith
    with ih3 have p3: "length sys' \<le> mx" by blast
    from ih2 have p2: "Suc it \<le> length sys'" by arith
    have p4: "mn \<le> length sys' \<and> (converged (take mn sys') thr \<longrightarrow> length sys' = mn)"
      if h: "Suc it \<le> mn \<and> mn \<le> mx"
    proof (cases "Suc it = mn")
      case True
      with again(2) have "\<not> converged sys1 thr" by simp
      with ih1 True have "\<not> converged (take mn sys') thr" by simp
      moreover from ih2 True have "mn \<le> length sys'" by arith
      ultimately show ?thesis by blast
    next
      case False
      with h have "Suc (Suc it) \<le> mn \<and> mn \<le> mx" by arith
      with ih4 show ?thesis by blast
    qed
    from p1 p2 p3 p4 show ?thesis by blast
  qed
qed

text \<open>The loop returns when every replication does.\<close>

lemma replications_returns:
  assumes "\<And>k. metrics_by_simulation fuel R C k \<noteq> None"
  shows "replications fuel R C mn mx thr it acc k \<noteq> None"
proof (induction "mx - it" arbitrary: it acc k rule: less_induct)
  case less
  obtain sys w u where acc: "acc = (sys, w, u)" by (cases acc) auto
  from assms [of k] obtain r where r: "metrics_by_simulation fuel R C k = Some r" by blast
  show ?case
  proof (cases r)
    case (Inl err)
    with r show ?thesis by (subst replications.simps) simp
  next
    case (Inr mk)
    then obtain metrics k' where m: "metrics_by_simulation fuel R C k = Some (Inr (metrics, k'))"
      using r by (cases mk) auto
    show ?thesis
    proof (cases "mx \<le> Suc it")
      case True
      then show ?thesis unfolding acc replications_unfold [OF m] by simp
    next
      case False
      then have "mx - Suc it < mx - it" by arith
      from less.hyps [OF this] False show ?thesis
        unfolding acc replications_unfold [OF m] by simp
    qed
  qed
qed

text \<open>
  With the notebook's constants: between 1000 and 5000 replications, and exactly 1000
  when the test holds on the first 1000 samples.
\<close>

lemma notebook_replication_count:
  assumes "replications fuel R C 1000 5000 (1 / 1000) 0 ([], [], []) k
      = Some (Inr (system_time, wait_time, use_time))"
  shows "1000 \<le> length system_time \<and> length system_time \<le> 5000 \<and>
     (converged (take 1000 system_time) (1 / 1000) \<longrightarrow> length system_time = 1000)"
proof -
  from replications_count [OF assms] have
    "Suc 0 \<le> 5000 \<longrightarrow> length system_time \<le> 5000"
    "Suc 0 \<le> 1000 \<and> (1000::nat) \<le> 5000 \<longrightarrow>
        1000 \<le> length system_time \<and>
        (converged (take 1000 system_time) (1 / 1000) \<longrightarrow> length system_time = 1000)"
    by simp_all
  moreover have "Suc 0 \<le> 5000" "Suc 0 \<le> 1000 \<and> (1000::nat) \<le> 5000"
    by simp_all
  ultimately show ?thesis by blast
qed

text \<open>
  Claim C7. With \<open>0 < min_iterations \<le> max_iterations\<close> (the notebook has 1000 and
  5000): the loop returns when every replication does, and a loop that returns has run
  at least \<open>min_iterations\<close> replications, whatever the threshold and the samples are
  (the convergence test is not consulted before), and at most \<open>max_iterations\<close>. When
  the test \<^verbatim>\<open>standard_deviation/len(system_time) < convergence_threshold\<close> holds on
  the first \<open>min_iterations\<close> samples, it has run exactly \<open>min_iterations\<close>.
\<close>

theorem replication_count:
  assumes "0 < min_iterations" and "min_iterations \<le> max_iterations"
  shows "((\<forall>k'. metrics_by_simulation fuel R C k' \<noteq> None) \<longrightarrow>
        replications fuel R C min_iterations max_iterations convergence_threshold 0 ([], [], []) k
          \<noteq> None) \<and>
     (replications fuel R C min_iterations max_iterations convergence_threshold 0 ([], [], []) k
          = Some (Inr (system_time, wait_time, use_time)) \<longrightarrow>
        min_iterations \<le> length system_time \<and> length system_time \<le> max_iterations \<and>
        (converged (take min_iterations system_time) convergence_threshold
           \<longrightarrow> length system_time = min_iterations))"
proof (intro conjI impI)
  assume "\<forall>k'. metrics_by_simulation fuel R C k' \<noteq> None"
  then show "replications fuel R C min_iterations max_iterations convergence_threshold 0
      ([], [], []) k \<noteq> None"
    by (intro replications_returns) simp
next
  assume r: "replications fuel R C min_iterations max_iterations convergence_threshold 0
      ([], [], []) k = Some (Inr (system_time, wait_time, use_time))"
  from replications_count [OF r] have
    "Suc 0 \<le> max_iterations \<longrightarrow> length system_time \<le> max_iterations"
    "Suc 0 \<le> min_iterations \<and> min_iterations \<le> max_iterations \<longrightarrow>
        min_iterations \<le> length system_time \<and>
        (converged (take min_iterations system_time) convergence_threshold
           \<longrightarrow> length system_time = min_iterations)"
    by simp_all
  moreover from assms have "Suc 0 \<le> max_iterations"
    "Suc 0 \<le> min_iterations \<and> min_iterations \<le> max_iterations"
    by arith+
  ultimately show "min_iterations \<le> length system_time" "length system_time \<le> max_iterations"
    "converged (take min_iterations system_time) convergence_threshold
       \<Longrightarrow> length system_time = min_iterations"
    by blast+
qed

theorem replication_count_witness:
  "(0::nat) < 2 \<and> (2::nat) \<le> 5 \<and>
   (\<forall>k'. metrics_by_simulation 20 unit_source tandem2 k' \<noteq> None) \<and>
   replications 20 unit_source tandem2 2 5 1 0 ([], [], []) 0
       = Some (Inr ([Some 2, Some 2], [Some 0, Some 0], [Some 1, Some 1])) \<and>
   converged (take 2 [Some 2, Some 2]) 1 \<and> converged (take 1 [Some 2, Some 2]) 1 \<and>
   length [Some (2::real), Some 2] = 2"
proof -
  have m: "metrics_by_simulation 20 unit_source tandem2 k
       = Some (Inr (\<lparr>m_time = 3, m_n_d = 1, m_wait_time = [Some 0, Some 0],
            m_use_time = [Some 1, Some 1], m_system_time = [2]\<rparr>, k + 4))" for k
    by (simp add: metrics_defs simulate_def engine_defs unit_source_def tandem2_def
        eval_nat_numeral)
  then have all: "\<forall>k'. metrics_by_simulation 20 unit_source tandem2 k' \<noteq> None"
    by simp
  have c: "converged (take 2 [Some 2, Some 2]) 1"
    by (simp add: converged_def np_std_def np_var_def nan_mean_def np_mean_def)
  have c1: "converged (take 1 [Some 2, Some 2]) 1"
    by (simp add: converged_def np_std_def np_var_def nan_mean_def np_mean_def)
  have r: "replications 20 unit_source tandem2 2 5 1 0 ([], [], []) 0
       = Some (Inr ([Some 2, Some 2], [Some 0, Some 0], [Some 1, Some 1]))"
    using c by (simp add: replications_unfold [OF m] nan_mean_def np_mean_def)
  have "(0::nat) < 2" "(2::nat) \<le> 5" by simp_all
  from replication_count [OF this, of 20 unit_source tandem2 1 0
      "[Some 2, Some 2]" "[Some 0, Some 0]" "[Some 1, Some 1]"] all r
  have "length [Some (2::real), Some 2] = 2" by simp
  with all r c c1 show ?thesis by simp
qed

end
